theory Spec2Isabelle
  imports Main "HOL-Library.Word" "HOL-Library.Sublist"
begin

unbundle bit_operations_syntax

section \<open>CAN trace replay: the frame model\<close>

text \<open>
  The program (\<^verbatim>\<open>main.go\<close>) reads a CSV dump of CAN frames and replays it on a bus.
  Go strings are byte sequences: they are modelled as \<^typ>\<open>string\<close>, one \<^typ>\<open>char\<close>
  per byte. Go's fixed-width unsigned integers are words.

  \<^verbatim>\<open>
  type CANFrame struct {
      Timestamp uint64
      ID        uint32
      Extended  bool
      Data      []byte
      Length    uint8
  }
  \<close>
\<close>

type_synonym u8 = "8 word"
type_synonym u32 = "32 word"
type_synonym u64 = "64 word"

record CANFrame =
  Timestamp :: u64
  ID :: u32
  Extended :: bool
  Data :: "u8 list"
  Length :: u8

section \<open>The library functions the parser calls\<close>

text \<open>
  These functions belong to Go's standard library, not to the repository. Each model
  follows the library's documented behaviour on byte strings.
\<close>

subsection \<open>\<^verbatim>\<open>strconv.ParseUint\<close> for an explicit base\<close>

datatype num_error = ErrSyntax | ErrRange

definition lower :: "u8 \<Rightarrow> u8" where
  \<comment> \<open>\<^verbatim>\<open>c | ('x' - 'X')\<close>\<close>
  "lower c = c OR 0x20"

definition digitVal :: "char \<Rightarrow> u8 option" where
  \<comment> \<open>the \<^verbatim>\<open>switch\<close> of the digit loop: \<^verbatim>\<open>'0'..'9'\<close>, then letters of either case\<close>
  "digitVal ch =
     (let c = (of_char ch :: u8) in
      if 0x30 \<le> c \<and> c \<le> 0x39 then Some (c - 0x30)
      else if 0x61 \<le> lower c \<and> lower c \<le> 0x7A then Some (lower c - 0x61 + 10)
      else None)"

definition cutoff :: "nat \<Rightarrow> u64" where
  \<comment> \<open>\<^verbatim>\<open>maxUint64/uint64(base) + 1\<close>: from here on the product with the base overflows\<close>
  "cutoff base = (- 1) div word_of_nat base + 1"

fun parseUintLoop :: "nat \<Rightarrow> u64 \<Rightarrow> u64 \<Rightarrow> string \<Rightarrow> num_error + u64" where
  "parseUintLoop base maxVal n [] = Inr n"
| "parseUintLoop base maxVal n (ch # cs) =
     (case digitVal ch of
        None \<Rightarrow> Inl ErrSyntax
      | Some d \<Rightarrow>
          if word_of_nat base \<le> d then Inl ErrSyntax
          else if cutoff base \<le> n then Inl ErrRange
          else
            let n0 = n * word_of_nat base;
                n1 = n0 + ucast d
            in if n1 < n0 \<or> maxVal < n1 then Inl ErrRange
               else parseUintLoop base maxVal n1 cs)"

definition ParseUint :: "string \<Rightarrow> nat \<Rightarrow> nat \<Rightarrow> num_error + u64" where
  \<comment> \<open>for \<^verbatim>\<open>2 <= base <= 36\<close> and \<^verbatim>\<open>0 < bitSize <= 64\<close>, the only way the program calls it\<close>
  "ParseUint s base bitSize =
     (if s = [] then Inl ErrSyntax
      else parseUintLoop base (push_bit bitSize 1 - 1) 0 s)"

subsection \<open>\<^verbatim>\<open>strings\<close>: trimming and lower-casing\<close>

definition TrimPrefix :: "string \<Rightarrow> string \<Rightarrow> string" where
  "TrimPrefix s p = (if prefix p s then drop (length p) s else s)"

definition TrimSuffix :: "string \<Rightarrow> string \<Rightarrow> string" where
  "TrimSuffix s p = (if suffix p s then take (length s - length p) s else s)"

definition TrimLeft :: "string \<Rightarrow> string \<Rightarrow> string" where
  \<comment> \<open>for a cutset of ASCII bytes\<close>
  "TrimLeft s cutset = dropWhile (\<lambda>c. c \<in> set cutset) s"

definition spaceRunes :: "string list" where
  \<comment> \<open>the UTF-8 encodings of the code points for which \<^verbatim>\<open>unicode.IsSpace\<close> holds:
      U+0009..U+000D, U+0020, U+0085, U+00A0, U+1680, U+2000..U+200A, U+2028, U+2029,
      U+202F, U+205F, U+3000\<close>
  "spaceRunes =
     [[CHR 0x09], [CHR 0x0A], [CHR 0x0B], [CHR 0x0C], [CHR 0x0D], [CHR 0x20],
      [CHR 0xC2, CHR 0x85], [CHR 0xC2, CHR 0xA0], [CHR 0xE1, CHR 0x9A, CHR 0x80],
      [CHR 0xE2, CHR 0x80, CHR 0x80], [CHR 0xE2, CHR 0x80, CHR 0x81],
      [CHR 0xE2, CHR 0x80, CHR 0x82], [CHR 0xE2, CHR 0x80, CHR 0x83],
      [CHR 0xE2, CHR 0x80, CHR 0x84], [CHR 0xE2, CHR 0x80, CHR 0x85],
      [CHR 0xE2, CHR 0x80, CHR 0x86], [CHR 0xE2, CHR 0x80, CHR 0x87],
      [CHR 0xE2, CHR 0x80, CHR 0x88], [CHR 0xE2, CHR 0x80, CHR 0x89],
      [CHR 0xE2, CHR 0x80, CHR 0x8A], [CHR 0xE2, CHR 0x80, CHR 0xA8],
      [CHR 0xE2, CHR 0x80, CHR 0xA9], [CHR 0xE2, CHR 0x80, CHR 0xAF],
      [CHR 0xE2, CHR 0x81, CHR 0x9F], [CHR 0xE3, CHR 0x80, CHR 0x80]]"

definition leadingRune :: "string list \<Rightarrow> string \<Rightarrow> nat" where
  \<comment> \<open>the length of the first of the encodings that the string starts with, or 0\<close>
  "leadingRune rs s =
     (case find (\<lambda>r. r \<noteq> [] \<and> prefix r s) rs of None \<Rightarrow> 0 | Some r \<Rightarrow> length r)"

function trimLeftRunes :: "string list \<Rightarrow> string \<Rightarrow> string" where
  "trimLeftRunes rs s =
     (if leadingRune rs s = 0 then s else trimLeftRunes rs (drop (leadingRune rs s) s))"
  by pat_completeness auto
termination
proof (relation "measure (\<lambda>(rs, s). length s)")
  show "wf (measure (\<lambda>(rs, s). length s))" by simp
next
  fix rs :: "string list" and s :: string
  assume nz: "leadingRune rs s \<noteq> 0"
  then obtain r where "find (\<lambda>r. r \<noteq> [] \<and> prefix r s) rs = Some r"
    by (auto simp: leadingRune_def split: option.splits)
  then have "r \<noteq> []" and "prefix r s"
    by (auto simp: find_Some_iff)
  then have "s \<noteq> []" by auto
  with nz show "((rs, drop (leadingRune rs s) s), (rs, s)) \<in> measure (\<lambda>(rs, s). length s)"
    by simp
qed

declare trimLeftRunes.simps [simp del]

definition trimRightRunes :: "string list \<Rightarrow> string \<Rightarrow> string" where
  "trimRightRunes rs s = rev (trimLeftRunes (map rev rs) (rev s))"

definition TrimSpace :: "string \<Rightarrow> string" where
  \<comment> \<open>leading white-space code points are removed first, then trailing ones\<close>
  "TrimSpace s = trimRightRunes spaceRunes (trimLeftRunes spaceRunes s)"

definition toLowerByte :: "char \<Rightarrow> char" where
  "toLowerByte ch =
     (let c = (of_char ch :: u8) in
      if 0x41 \<le> c \<and> c \<le> 0x5A then char_of (unat (c + 0x20)) else ch)"

definition ToLower :: "string \<Rightarrow> string" where
  \<comment> \<open>the ASCII mapping; no code point outside ASCII lower-cases to a letter of
      \<^verbatim>\<open>"true"\<close>, the one string the result is compared with\<close>
  "ToLower s = map toLowerByte s"

subsection \<open>\<^verbatim>\<open>hex.DecodeString\<close>\<close>

datatype hex_error = InvalidByteError char | ErrLength

definition reverseHexTable :: "char \<Rightarrow> u8" where
  "reverseHexTable ch =
     (let c = (of_char ch :: u8) in
      if 0x30 \<le> c \<and> c \<le> 0x39 then c - 0x30
      else if 0x61 \<le> c \<and> c \<le> 0x66 then c - 0x61 + 10
      else if 0x41 \<le> c \<and> c \<le> 0x46 then c - 0x41 + 10
      else 0xFF)"

fun DecodeString :: "string \<Rightarrow> u8 list \<times> hex_error option" where
  \<comment> \<open>the bytes decoded before the error, and the error\<close>
  "DecodeString [] = ([], None)"
| "DecodeString [p] =
     (if 0x0F < reverseHexTable p then ([], Some (InvalidByteError p))
      else ([], Some ErrLength))"
| "DecodeString (p # q # rest) =
     (let a = reverseHexTable p; b = reverseHexTable q in
      if 0x0F < a then ([], Some (InvalidByteError p))
      else if 0x0F < b then ([], Some (InvalidByteError q))
      else (case DecodeString rest of (bs, err) \<Rightarrow> ((push_bit 4 a OR b) # bs, err)))"

section \<open>The trace parser\<close>

text \<open>
  \<^verbatim>\<open>parseCANFrame\<close> returns a frame or an error; an index beyond the record is a
  run-time panic, which ends the program. The three results are kept apart.
\<close>

datatype parse_error =
    InvalidTimestamp num_error
  | InvalidCANID num_error
  | InvalidLength num_error
  | InvalidDataByte nat string  \<comment> \<open>\<^verbatim>\<open>"invalid data byte D%d: %s"\<close>\<close>

datatype 'a outcome = Ok 'a | Err parse_error | Panic

definition idStrOf :: "string \<Rightarrow> string" where
  \<comment> \<open>lines 72 to 76\<close>
  "idStrOf col =
     (let idStr = TrimPrefix col ''0x'';
          idStr = TrimLeft idStr ''0''
      in if idStr = [] then ''0'' else idStr)"

definition parseCANID :: "string \<Rightarrow> num_error + u64" where
  \<comment> \<open>line 77\<close>
  "parseCANID col = ParseUint (idStrOf col) 16 32"

definition dataStrOf :: "string \<Rightarrow> string" where
  \<comment> \<open>lines 96 and 97\<close>
  "dataStrOf col = TrimSuffix (TrimSpace col) '',''"

function parseData :: "string list \<Rightarrow> u8 \<Rightarrow> nat \<Rightarrow> u8 list \<Rightarrow> (u8 list) outcome" where
  \<comment> \<open>the loop of lines 95 to 104, from index \<open>i\<close> on\<close>
  "parseData record len i data =
     (if i < unat len \<and> i < 8 then
        (if length record \<le> 6 + i then Panic
         else
           (let dataStr = dataStrOf (record ! (6 + i))
            in (case DecodeString dataStr of
                  (b, err) \<Rightarrow>
                    if err \<noteq> None \<or> length b \<noteq> 1 then Err (InvalidDataByte (i + 1) dataStr)
                    else parseData record len (i + 1) (data[i := b ! 0]))))
      else Ok data)"
  by pat_completeness auto
termination
  by (relation "measure (\<lambda>(record, len, i, data). 8 - i)") auto

declare parseData.simps [simp del]

definition parsePayload :: "string list \<Rightarrow> u64 \<Rightarrow> u32 \<Rightarrow> bool \<Rightarrow> u8 \<Rightarrow> CANFrame outcome" where
  \<comment> \<open>lines 93 to 106\<close>
  "parsePayload record timestamp ident extended len =
     (case parseData record len 0 (replicate (unat len) 0) of
        Panic \<Rightarrow> Panic
      | Err e \<Rightarrow> Err e
      | Ok data \<Rightarrow>
          Ok \<lparr>Timestamp = timestamp, ID = ident, Extended = extended,
              Data = data, Length = len\<rparr>)"

definition parseLength :: "string list \<Rightarrow> u64 \<Rightarrow> u32 \<Rightarrow> CANFrame outcome" where
  \<comment> \<open>lines 83 to 91, then the payload\<close>
  "parseLength record timestamp ident =
     (if length record \<le> 2 then Panic
      else
        (let extended = (ToLower (record ! 2) = ''true'') in
         if length record \<le> 5 then Panic
         else
           (case ParseUint (record ! 5) 10 8 of
              Inl e \<Rightarrow> Err (InvalidLength e)
            | Inr len \<Rightarrow> parsePayload record timestamp ident extended (ucast len))))"

definition parseCANFrame :: "string list \<Rightarrow> CANFrame outcome" where
  "parseCANFrame record =
     (if length record \<le> 0 then Panic
      else
        (case ParseUint (record ! 0) 10 64 of
           Inl e \<Rightarrow> Err (InvalidTimestamp e)
         | Inr timestamp \<Rightarrow>
             if length record \<le> 1 then Panic
             else
               (case parseCANID (record ! 1) of
                  Inl e \<Rightarrow> Err (InvalidCANID e)
                | Inr ident \<Rightarrow> parseLength record timestamp (ucast ident))))"

text \<open>
  \<^verbatim>\<open>parseCSV\<close>. The file is given as the rows of fields that its CSV syntax yields.
  \<^verbatim>\<open>csv.NewReader\<close> leaves \<^verbatim>\<open>FieldsPerRecord\<close> at 0, so \<^verbatim>\<open>ReadAll\<close> takes the
  field count of the first record and fails with \<^verbatim>\<open>ErrFieldCount\<close> on a record of
  another count. The warnings written with \<^verbatim>\<open>log.Printf\<close> are collected in order.
\<close>

datatype csv_input = OpenFails | Unreadable | Rows "string list list"

fun ReadAll :: "nat \<Rightarrow> string list list \<Rightarrow> string list list option" where
  \<comment> \<open>the first argument is the reader's \<^verbatim>\<open>FieldsPerRecord\<close>; \<open>None\<close> is \<^verbatim>\<open>ErrFieldCount\<close>\<close>
  "ReadAll fieldsPerRecord [] = Some []"
| "ReadAll fieldsPerRecord (dst # rest) =
     (if 0 < fieldsPerRecord \<and> length dst \<noteq> fieldsPerRecord then None
      else
        (case ReadAll (if 0 < fieldsPerRecord then fieldsPerRecord else length dst) rest of
           None \<Rightarrow> None
         | Some records \<Rightarrow> Some (dst # records)))"

datatype warning =
    InsufficientColumns nat  \<comment> \<open>\<^verbatim>\<open>"skipping row %d - insufficient columns"\<close>\<close>
  | SkippedRow nat parse_error  \<comment> \<open>\<^verbatim>\<open>"skipping row %d - %v"\<close>\<close>

datatype csv_result =
    OpenError | ReadError | NoDataRows
  | Parsed "CANFrame list" "warning list"
  | Crashed

fun parseRows :: "nat \<Rightarrow> string list list \<Rightarrow> CANFrame list \<Rightarrow> warning list
    \<Rightarrow> (CANFrame list \<times> warning list) option" where
  \<comment> \<open>the loop over \<^verbatim>\<open>records[1:]\<close> from index \<open>i\<close> on; \<open>None\<close> is a panic\<close>
  "parseRows i [] frames warnings = Some (frames, warnings)"
| "parseRows i (record # rest) frames warnings =
     (if length record < 12 then
        parseRows (i + 1) rest frames (warnings @ [InsufficientColumns (i + 2)])
      else
        (case parseCANFrame record of
           Panic \<Rightarrow> None
         | Err e \<Rightarrow> parseRows (i + 1) rest frames (warnings @ [SkippedRow (i + 2) e])
         | Ok frame \<Rightarrow> parseRows (i + 1) rest (frames @ [frame]) warnings))"

definition parseRecords :: "string list list \<Rightarrow> csv_result" where
  \<comment> \<open>lines 38 to 58\<close>
  "parseRecords records =
     (if length records < 2 then NoDataRows
      else
        (case parseRows 0 (drop 1 records) [] [] of
           None \<Rightarrow> Crashed
         | Some (frames, warnings) \<Rightarrow> Parsed frames warnings))"

definition parseCSV :: "csv_input \<Rightarrow> csv_result" where
  "parseCSV input =
     (case input of
        OpenFails \<Rightarrow> OpenError
      | Unreadable \<Rightarrow> ReadError
      | Rows rows \<Rightarrow>
          (case ReadAll 0 rows of
             None \<Rightarrow> ReadError
           | Some records \<Rightarrow> parseRecords records))"

section \<open>The replay scheduler\<close>

text \<open>
  \<^verbatim>\<open>replayFrames\<close> sleeps, publishes frames on the bus and prints progress. What it
  does is recorded as a list of events, in order. The bus is outside the program: it is
  given by the outcome of each call of \<^verbatim>\<open>bus.Publish\<close>, \<open>bus n\<close> being true when the
  call number \<open>n\<close> (from 0) returns no error. The constant \<^verbatim>\<open>can.EFF\<close> belongs to the
  bus library and is a parameter.

  With \<^verbatim>\<open>loop\<close> set, the outer loop ends only when a call fails. The model counts
  passes: \<open>fuel\<close> is the number of passes it may start, and \<open>Running\<close> says that the
  loop has not returned after them.
\<close>

record can_Frame =
  can_ID :: u32
  can_Length :: u8
  can_Flags :: u8
  can_Data :: "u8 list"  \<comment> \<open>\<^verbatim>\<open>[8]uint8\<close>\<close>

type_synonym Duration = u64  \<comment> \<open>\<^verbatim>\<open>int64\<close> nanoseconds, read with \<^const>\<open>sint\<close>\<close>

definition Microsecond :: Duration where
  "Microsecond = 1000"

datatype event =
    Sleep Duration
  | Publish can_Frame
  | PrintSent nat nat u32 Duration  \<comment> \<open>\<^verbatim>\<open>"Sent frame %d/%d (ID: 0x%03X) at +%v"\<close>\<close>
  | PrintLooping

datatype replay_error =
    NoFrames
  | SendFailed nat u32  \<comment> \<open>\<^verbatim>\<open>"failed to send frame %d (ID: 0x%X): %w"\<close>\<close>

datatype status = Returned "replay_error option" | Running

definition encodeFrame :: "u8 \<Rightarrow> CANFrame \<Rightarrow> can_Frame" where
  \<comment> \<open>lines 132 to 142; \<^verbatim>\<open>copy\<close> fills at most the 8 bytes of the array\<close>
  "encodeFrame EFF frame =
     \<lparr>can_ID = ID frame, can_Length = Length frame,
      can_Flags = (if Extended frame then 0 OR EFF else 0),
      can_Data = take 8 (Data frame) @ replicate (8 - length (Data frame)) 0\<rparr>"

definition frameDelay :: "CANFrame list \<Rightarrow> nat \<Rightarrow> CANFrame \<Rightarrow> Duration" where
  \<comment> \<open>lines 119 to 125\<close>
  "frameDelay frames i frame =
     (if i = 0 then 0
      else (Timestamp frame - Timestamp (frames ! (i - 1))) * Microsecond)"

fun replayPass :: "u8 \<Rightarrow> (nat \<Rightarrow> bool) \<Rightarrow> CANFrame list \<Rightarrow> nat \<Rightarrow> nat \<Rightarrow> CANFrame list
    \<Rightarrow> event list \<times> replay_error option" where
  \<comment> \<open>the inner loop from index \<open>i\<close> on, after \<open>sent\<close> calls of \<^verbatim>\<open>Publish\<close>\<close>
  "replayPass EFF bus frames sent i [] = ([], None)"
| "replayPass EFF bus frames sent i (frame # rest) =
     (let delay = frameDelay frames i frame;
          sleep = (if 0 <s delay then [Sleep delay] else []);
          canFrame = encodeFrame EFF frame
      in if \<not> bus sent then (sleep @ [Publish canFrame], Some (SendFailed i (ID frame)))
         else
           (let elapsed = (Timestamp frame - Timestamp (frames ! 0)) * Microsecond;
                progress = (if i mod 100 = 0
                            then [PrintSent (i + 1) (length frames) (ID frame) elapsed] else [])
            in (case replayPass EFF bus frames (sent + 1) (i + 1) rest of
                  (evs, r) \<Rightarrow> (sleep @ [Publish canFrame] @ progress @ evs, r))))"

fun replayLoop :: "nat \<Rightarrow> u8 \<Rightarrow> (nat \<Rightarrow> bool) \<Rightarrow> CANFrame list \<Rightarrow> bool \<Rightarrow> nat
    \<Rightarrow> event list \<times> status" where
  "replayLoop 0 EFF bus frames loop sent = ([], Running)"
| "replayLoop (Suc fuel) EFF bus frames loop sent =
     (case replayPass EFF bus frames sent 0 frames of
        (evs, Some e) \<Rightarrow> (evs, Returned (Some e))
      | (evs, None) \<Rightarrow>
          if \<not> loop then (evs, Returned None)
          else
            (case replayLoop fuel EFF bus frames loop (sent + length frames) of
               (evs', st) \<Rightarrow> (evs @ [PrintLooping] @ evs', st)))"

definition replayFrames :: "nat \<Rightarrow> u8 \<Rightarrow> (nat \<Rightarrow> bool) \<Rightarrow> CANFrame list \<Rightarrow> bool
    \<Rightarrow> event list \<times> status" where
  "replayFrames fuel EFF bus frames loop =
     (if length frames = 0 then ([], Returned (Some NoFrames))
      else replayLoop fuel EFF bus frames loop 0)"

text \<open>What an observer of the bus sees: the frames published, and the time slept before each.\<close>

fun published :: "event list \<Rightarrow> can_Frame list" where
  "published [] = []"
| "published (Publish f # evs) = f # published evs"
| "published (ev # evs) = published evs"

fun sleeps :: "event list \<Rightarrow> Duration list" where
  "sleeps [] = []"
| "sleeps (Sleep d # evs) = d # sleeps evs"
| "sleeps (ev # evs) = sleeps evs"

fun delaysFrom :: "int \<Rightarrow> event list \<Rightarrow> int list" where
  \<comment> \<open>for each frame published, the nanoseconds slept since the one before\<close>
  "delaysFrom acc [] = []"
| "delaysFrom acc (Sleep d # evs) = delaysFrom (acc + sint d) evs"
| "delaysFrom acc (Publish f # evs) = acc # delaysFrom 0 evs"
| "delaysFrom acc (ev # evs) = delaysFrom acc evs"

definition delays :: "event list \<Rightarrow> int list" where
  "delays evs = delaysFrom 0 evs"

text \<open>The nanoseconds that the scheduler sleeps for a delay: none unless it is positive.\<close>

definition slept :: "Duration \<Rightarrow> int" where
  "slept d = (if 0 <s d then sint d else 0)"

text \<open>The sleeps of one pass over \<open>rest\<close>, the frames from index \<open>i\<close> on.\<close>

fun passDelays :: "CANFrame list \<Rightarrow> nat \<Rightarrow> CANFrame list \<Rightarrow> int list" where
  "passDelays frames i [] = []"
| "passDelays frames i (frame # rest) =
     slept (frameDelay frames i frame) # passDelays frames (i + 1) rest"

text \<open>
  The same, call by call: for each frame handed to the bus, whether or not the bus takes
  it, the calls of \<^verbatim>\<open>time.Sleep\<close> made since the frame before, as nanoseconds, and the
  frame. A call with the duration 0 is a call.
\<close>

fun attemptsFrom :: "int list \<Rightarrow> event list \<Rightarrow> (int list \<times> can_Frame) list" where
  "attemptsFrom calls [] = []"
| "attemptsFrom calls (Sleep d # evs) = attemptsFrom (calls @ [sint d]) evs"
| "attemptsFrom calls (Publish f # evs) = (calls, f) # attemptsFrom [] evs"
| "attemptsFrom calls (ev # evs) = attemptsFrom calls evs"

definition attempts :: "event list \<Rightarrow> (int list \<times> can_Frame) list" where
  "attempts evs = attemptsFrom [] evs"

text \<open>The calls of \<^verbatim>\<open>time.Sleep\<close> that the scheduler makes for a delay, and one pass of them.\<close>

definition sleepCalls :: "Duration \<Rightarrow> int list" where
  "sleepCalls d = (if 0 <s d then [sint d] else [])"

fun passAttempts :: "u8 \<Rightarrow> CANFrame list \<Rightarrow> nat \<Rightarrow> CANFrame list \<Rightarrow> (int list \<times> can_Frame) list" where
  "passAttempts EFF frames i [] = []"
| "passAttempts EFF frames i (frame # rest) =
     (sleepCalls (frameDelay frames i frame), encodeFrame EFF frame)
     # passAttempts EFF frames (i + 1) rest"

text \<open>
  The number that a string of digits denotes in a base, and whether a string is one:
  the reading of \<^verbatim>\<open>ParseUint\<close> without the bounds of a machine word.
\<close>

definition digitOf :: "char \<Rightarrow> nat" where
  "digitOf c = (case digitVal c of None \<Rightarrow> 0 | Some d \<Rightarrow> unat d)"

definition digitsValueFrom :: "nat \<Rightarrow> nat \<Rightarrow> string \<Rightarrow> nat" where
  "digitsValueFrom base v s = foldl (\<lambda>v c. v * base + digitOf c) v s"

definition digitsValue :: "nat \<Rightarrow> string \<Rightarrow> nat" where
  "digitsValue base s = digitsValueFrom base 0 s"

definition isDigit :: "nat \<Rightarrow> char \<Rightarrow> bool" where
  "isDigit base c = (case digitVal c of None \<Rightarrow> False | Some d \<Rightarrow> unat d < base)"

definition isDigits :: "nat \<Rightarrow> string \<Rightarrow> bool" where
  "isDigits base s = list_all (isDigit base) s"

section \<open>Example inputs\<close>

definition exampleRow :: "string \<Rightarrow> string \<Rightarrow> string \<Rightarrow> string list" where
  \<comment> \<open>the data row of the input format's description, with the identifier, flag and
      length columns left open\<close>
  "exampleRow ident ext len =
     [''18970798'', ident, ext, ''Rx'', ''0'', len,
      ''00'', ''09'', ''1C'', ''46'', ''00'', ''00'', ''00'', ''01'']"

definition header14 :: "string list" where
  "header14 =
     [''Time'', ''ID'', ''Extended'', ''Dir'', ''Bus'', ''LEN'',
      ''D1'', ''D2'', ''D3'', ''D4'', ''D5'', ''D6'', ''D7'', ''D8'']"

definition header12 :: "string list" where
  \<comment> \<open>a dump whose table stops at the sixth payload column\<close>
  "header12 = take 12 header14"

definition row12 :: "string \<Rightarrow> string list" where
  \<comment> \<open>a row of such a dump, with its length column left open\<close>
  "row12 len = take 12 (exampleRow ''000005F4'' ''false'' len)"

definition frameAt :: "u64 \<Rightarrow> CANFrame" where
  "frameAt t = \<lparr>Timestamp = t, ID = 0x5F4, Extended = False, Data = [0x1C, 0x46], Length = 2\<rparr>"

section \<open>One pass of the scheduler\<close>

lemma published_append: "published (xs @ ys) = published xs @ published ys"
  by (induction xs rule: published.induct) simp_all

lemma replayPass_ok:
  assumes "\<forall>j<length rest. bus (sent + j)"
  shows "snd (replayPass EFF bus frames sent i rest) = None
     \<and> published (fst (replayPass EFF bus frames sent i rest)) = map (encodeFrame EFF) rest"
  using assms
proof (induction rest arbitrary: sent i)
  case Nil
  then show ?case by simp
next
  case (Cons frame rest)
  from Cons.prems have now: "bus sent" by force
  have later: "\<forall>j<length rest. bus (sent + 1 + j)"
  proof (intro allI impI)
    fix j assume "j < length rest"
    then have "Suc j < length (frame # rest)" by simp
    with Cons.prems have "bus (sent + Suc j)" by blast
    then show "bus (sent + 1 + j)" by simp
  qed
  from Cons.IH [OF later, of "i + 1"] now show ?case
    by (auto simp: Let_def published_append split: prod.splits)
qed

lemma replayPass_fail:
  assumes "k < length rest" and "\<forall>j<k. bus (sent + j)" and "\<not> bus (sent + k)"
  shows "snd (replayPass EFF bus frames sent i rest) = Some (SendFailed (i + k) (ID (rest ! k)))
     \<and> published (fst (replayPass EFF bus frames sent i rest))
         = map (encodeFrame EFF) (take (Suc k) rest)"
  using assms
proof (induction rest arbitrary: sent i k)
  case Nil
  then show ?case by simp
next
  case (Cons frame rest)
  show ?case
  proof (cases k)
    case 0
    with Cons.prems show ?thesis
      by (simp add: Let_def published_append)
  next
    case (Suc k')
    with Cons.prems have now: "bus sent" by force
    have before: "\<forall>j<k'. bus (sent + 1 + j)"
    proof (intro allI impI)
      fix j assume "j < k'"
      then have "Suc j < k" using Suc by simp
      with Cons.prems have "bus (sent + Suc j)" by blast
      then show "bus (sent + 1 + j)" by simp
    qed
    from Cons.prems Suc have "k' < length rest" and "\<not> bus (sent + 1 + k')"
      by simp_all
    from Cons.IH [OF this(1) before this(2), of "i + 1"] now Suc show ?thesis
      by (auto simp: Let_def published_append split: prod.splits)
  qed
qed

lemma delaysFrom_pass:
  assumes "\<forall>j<length rest. bus (sent + j)"
  shows "delaysFrom acc (fst (replayPass EFF bus frames sent i rest) @ after) =
     (case passDelays frames i rest of
        [] \<Rightarrow> delaysFrom acc after
      | d # ds \<Rightarrow> (acc + d) # ds @ delaysFrom 0 after)"
  using assms
proof (induction rest arbitrary: sent i acc)
  case Nil
  then show ?case by simp
next
  case (Cons frame rest)
  from Cons.prems have now: "bus sent" by force
  have later: "\<forall>j<length rest. bus (sent + 1 + j)"
  proof (intro allI impI)
    fix j assume "j < length rest"
    then have "Suc j < length (frame # rest)" by simp
    with Cons.prems have "bus (sent + Suc j)" by blast
    then show "bus (sent + 1 + j)" by simp
  qed
  obtain evs r where pass: "replayPass EFF bus frames (sent + 1) (i + 1) rest = (evs, r)"
    by (cases "replayPass EFF bus frames (sent + 1) (i + 1) rest")
  from Cons.IH [OF later, of 0 "i + 1"] pass
  have ih: "delaysFrom 0 (evs @ after) = passDelays frames (i + 1) rest @ delaysFrom 0 after"
    by (simp split: list.splits)
  from now pass ih show ?case
    by (simp add: Let_def slept_def)
qed

lemma length_passDelays: "length (passDelays frames i rest) = length rest"
  by (induction rest arbitrary: i) simp_all

lemma nth_passDelays:
  "k < length rest \<Longrightarrow> passDelays frames i rest ! k = slept (frameDelay frames (i + k) (rest ! k))"
proof (induction rest arbitrary: i k)
  case Nil
  then show ?case by simp
next
  case (Cons frame rest)
  then show ?case by (cases k) simp_all
qed

lemma replayLoop_fail:
  assumes "k < length frames"
    and "\<forall>j < p * length frames + k. bus (sent + j)"
    and "\<not> bus (sent + (p * length frames + k))"
    and "loop \<or> p = 0"
    and "p < fuel"
  shows "snd (replayLoop fuel EFF bus frames loop sent) = Returned (Some (SendFailed k (ID (frames ! k))))
     \<and> published (fst (replayLoop fuel EFF bus frames loop sent))
         = concat (replicate p (map (encodeFrame EFF) frames)) @ map (encodeFrame EFF) (take (Suc k) frames)"
  using assms(2-5)
proof (induction p arbitrary: fuel sent)
  case 0
  then obtain fuel' where fuel: "fuel = Suc fuel'" by (cases fuel) auto
  from 0 have "\<forall>j<k. bus (sent + j)" and "\<not> bus (sent + k)" by simp_all
  from replayPass_fail [OF assms(1) this, of EFF frames 0] fuel show ?case
    by (auto split: prod.splits)
next
  case (Suc p)
  then obtain fuel' where fuel: "fuel = Suc fuel'" by (cases fuel) auto
  from Suc.prems have loop: loop by simp
  have "\<forall>j<length frames. bus (sent + j)"
    using Suc.prems(1) by (simp add: trans_less_add1)
  note ok = replayPass_ok [OF this, of EFF frames 0]
  have before: "\<forall>j < p * length frames + k. bus (sent + length frames + j)"
  proof (intro allI impI)
    fix j assume "j < p * length frames + k"
    then have "length frames + j < Suc p * length frames + k" by simp
    with Suc.prems(1) have "bus (sent + (length frames + j))" by blast
    then show "bus (sent + length frames + j)" by (simp add: add.assoc)
  qed
  from Suc.prems(2) have fails: "\<not> bus (sent + length frames + (p * length frames + k))"
    by (simp add: add.assoc add.left_commute)
  from Suc.prems(4) fuel have "p < fuel'" by simp
  from Suc.IH [OF before fails _ this] loop ok fuel show ?case
    by (auto simp: published_append split: prod.splits option.splits)
qed

lemma replayLoop_ok:
  assumes "\<forall>j < fuel * length frames. bus (sent + j)"
  shows "snd (replayLoop fuel EFF bus frames True sent) = Running
     \<and> published (fst (replayLoop fuel EFF bus frames True sent))
         = concat (replicate fuel (map (encodeFrame EFF) frames))
     \<and> delaysFrom 0 (fst (replayLoop fuel EFF bus frames True sent))
         = concat (replicate fuel (passDelays frames 0 frames))"
  using assms
proof (induction fuel arbitrary: sent)
  case 0
  then show ?case by simp
next
  case (Suc fuel)
  have first: "\<forall>j<length frames. bus (sent + j)"
    using Suc.prems by (simp add: trans_less_add1)
  note ok = replayPass_ok [OF this, of EFF frames 0]
  have later: "\<forall>j < fuel * length frames. bus (sent + length frames + j)"
  proof (intro allI impI)
    fix j assume "j < fuel * length frames"
    then have "length frames + j < Suc fuel * length frames" by simp
    with Suc.prems have "bus (sent + (length frames + j))" by blast
    then show "bus (sent + length frames + j)" by (simp add: add.assoc)
  qed
  obtain evs r where pass: "replayPass EFF bus frames sent 0 frames = (evs, r)"
    by (cases "replayPass EFF bus frames sent 0 frames")
  obtain evs' st where rest: "replayLoop fuel EFF bus frames True (sent + length frames) = (evs', st)"
    by (cases "replayLoop fuel EFF bus frames True (sent + length frames)")
  from ok pass have r: "r = None" and pub: "published evs = map (encodeFrame EFF) frames"
    by simp_all
  from delaysFrom_pass [OF first, of 0 EFF frames 0 "PrintLooping # evs'"] pass
  have "delaysFrom 0 (evs @ PrintLooping # evs') = passDelays frames 0 frames @ delaysFrom 0 evs'"
    by (simp split: list.splits)
  with Suc.IH [OF later] pass rest r pub show ?case
    by (simp add: published_append)
qed

lemma nth_concat_replicate:
  "p < n \<Longrightarrow> k < length xs \<Longrightarrow> concat (replicate n xs) ! (p * length xs + k) = xs ! k"
proof (induction n arbitrary: p)
  case 0
  then show ?case by simp
next
  case (Suc n)
  show ?case
  proof (cases p)
    case 0
    with Suc.prems show ?thesis by (simp add: nth_append)
  next
    case (Suc p')
    with Suc.prems have "p' < n" by simp
    from Suc.IH [OF this Suc.prems(2)] Suc show ?thesis
      by (simp add: nth_append)
  qed
qed

lemma replayLoop_once:
  assumes "\<forall>j<length frames. bus (sent + j)"
  shows "replayLoop (Suc fuel) EFF bus frames False sent
     = (fst (replayPass EFF bus frames sent 0 frames), Returned None)"
  using replayPass_ok [OF assms, of EFF frames 0]
  by (auto split: prod.splits option.splits)

lemma hd_passDelays: "passDelays frames 0 (frame # rest) ! 0 = 0"
  by (simp add: slept_def frameDelay_def)

lemma sint_small:
  fixes x :: u64
  assumes "uint x * 1000 < 2 ^ 63"
  shows "sint (x * 1000) = uint x * 1000"
proof -
  have "0 \<le> uint x * 1000" by simp
  moreover from assms have "uint x * 1000 < 2 ^ 64" by simp
  ultimately have ui: "uint (x * 1000) = uint x * 1000"
    by (simp add: uint_word_ariths)
  with assms have small: "uint (x * 1000) < 2 ^ 63" by simp
  have "sint (x * 1000) = signed_take_bit 63 (uint (x * 1000))"
    by (simp add: sint_uint)
  also have "\<dots> = uint (x * 1000)"
  proof (rule signed_take_bit_int_eq_self)
    have "- (2 ^ 63) \<le> (0 :: int)" by simp
    also have "0 \<le> uint (x * 1000)" by simp
    finally show "- (2 ^ 63) \<le> uint (x * 1000)" .
    show "uint (x * 1000) < 2 ^ 63" by (rule small)
  qed
  finally show ?thesis using ui by simp
qed

section \<open>The sleep calls of the scheduler\<close>

lemma attemptsFrom_sleep:
  "attemptsFrom [] ((if 0 <s d then [Sleep d] else []) @ Publish f # evs)
     = (sleepCalls d, f) # attemptsFrom [] evs"
  by (simp add: sleepCalls_def)

lemma attemptsFrom_progress:
  "attemptsFrom [] ((if c then [PrintSent a b i e] else []) @ evs) = attemptsFrom [] evs"
  by simp

lemma replayPass_attempts:
  "attemptsFrom [] (fst (replayPass EFF bus frames sent i rest) @ after)
     = take (length (published (fst (replayPass EFF bus frames sent i rest))))
         (passAttempts EFF frames i rest) @ attemptsFrom [] after
   \<and> length (published (fst (replayPass EFF bus frames sent i rest))) \<le> length rest
   \<and> (snd (replayPass EFF bus frames sent i rest) = None \<longrightarrow>
        length (published (fst (replayPass EFF bus frames sent i rest))) = length rest)
   \<and> (rest \<noteq> [] \<longrightarrow> 0 < length (published (fst (replayPass EFF bus frames sent i rest))))"
proof (induction rest arbitrary: sent i)
  case Nil
  then show ?case by simp
next
  case (Cons frame rest)
  show ?case
  proof (cases "bus sent")
    case False
    then show ?thesis
      by (simp add: Let_def sleepCalls_def published_append)
  next
    case True
    obtain evs r where pass: "replayPass EFF bus frames (sent + 1) (i + 1) rest = (evs, r)"
      by (cases "replayPass EFF bus frames (sent + 1) (i + 1) rest")
    with Cons.IH [of "sent + 1" "i + 1"]
    have att: "attemptsFrom [] (evs @ after)
        = take (length (published evs)) (passAttempts EFF frames (i + 1) rest)
          @ attemptsFrom [] after"
      and le: "length (published evs) \<le> length rest"
      and full: "r = None \<longrightarrow> length (published evs) = length rest"
      by simp_all
    from True pass have evs': "fst (replayPass EFF bus frames sent i (frame # rest))
        = (if 0 <s frameDelay frames i frame then [Sleep (frameDelay frames i frame)] else [])
          @ Publish (encodeFrame EFF frame)
          # (if i mod 100 = 0
             then [PrintSent (i + 1) (length frames) (ID frame)
                     ((Timestamp frame - Timestamp (frames ! 0)) * Microsecond)]
             else []) @ evs"
      and r': "snd (replayPass EFF bus frames sent i (frame # rest)) = r"
      by (simp_all add: Let_def)
    have pub: "published (fst (replayPass EFF bus frames sent i (frame # rest)))
        = encodeFrame EFF frame # published evs"
      unfolding evs' by (simp add: published_append)
    have "attemptsFrom [] (fst (replayPass EFF bus frames sent i (frame # rest)) @ after)
        = (sleepCalls (frameDelay frames i frame), encodeFrame EFF frame)
          # attemptsFrom [] (evs @ after)"
      unfolding evs' by (simp add: sleepCalls_def)
    with att pub le full r' show ?thesis
      by (simp del: replayPass.simps)
  qed
qed

lemma length_passAttempts: "length (passAttempts EFF frames i rest) = length rest"
  by (induction rest arbitrary: i) simp_all

lemma nth_passAttempts:
  "k < length rest \<Longrightarrow> passAttempts EFF frames i rest ! k
     = (sleepCalls (frameDelay frames (i + k) (rest ! k)), encodeFrame EFF (rest ! k))"
proof (induction rest arbitrary: i k)
  case Nil
  then show ?case by simp
next
  case (Cons frame rest)
  then show ?case by (cases k) simp_all
qed


lemma length_attemptsFrom: "length (attemptsFrom calls evs) = length (published evs)"
  by (induction calls evs rule: attemptsFrom.induct) simp_all

lemma replayLoop_attempts:
  "prefix (attempts (fst (replayLoop fuel EFF bus frames loop sent)))
     (concat (replicate fuel (passAttempts EFF frames 0 frames)))"
proof (induction fuel arbitrary: sent)
  case 0
  then show ?case by (simp add: attempts_def)
next
  case (Suc fuel)
  let ?P = "passAttempts EFF frames 0 frames"
  obtain evs r where pass: "replayPass EFF bus frames sent 0 frames = (evs, r)"
    by (cases "replayPass EFF bus frames sent 0 frames")
  obtain evs' st where rest: "replayLoop fuel EFF bus frames loop (sent + length frames) = (evs', st)"
    by (cases "replayLoop fuel EFF bus frames loop (sent + length frames)")
  from replayPass_attempts [of EFF bus frames sent 0 frames "[]"] pass
  have alone: "attemptsFrom [] evs = take (length (published evs)) ?P"
    and full: "r = None \<longrightarrow> length (published evs) = length frames"
    by simp_all
  from replayPass_attempts [of EFF bus frames sent 0 frames "PrintLooping # evs'"] pass
  have first: "attemptsFrom [] (evs @ PrintLooping # evs')
      = take (length (published evs)) ?P @ attemptsFrom [] evs'"
    by simp
  show ?case
  proof (cases r)
    case (Some e)
    have "prefix (take (length (published evs)) ?P) ?P" by (rule take_is_prefix)
    then have "prefix (take (length (published evs)) ?P) (?P @ concat (replicate fuel ?P))"
      by (rule prefix_prefix)
    with Some pass alone show ?thesis by (simp add: attempts_def)
  next
    case None
    with full have whole: "take (length (published evs)) ?P = ?P"
      by (simp add: length_passAttempts)
    show ?thesis
    proof (cases loop)
      case False
      with None pass alone whole show ?thesis by (simp add: attempts_def)
    next
      case True
      from Suc.IH [of "sent + length frames"] rest
      have "prefix (attemptsFrom [] evs') (concat (replicate fuel ?P))"
        by (simp add: attempts_def)
      with True None pass rest first whole show ?thesis
        by (simp add: attempts_def)
    qed
  qed
qed

lemma replayLoop_starts:
  assumes "frames \<noteq> []"
  shows "attempts (fst (replayLoop (Suc fuel) EFF bus frames loop sent)) \<noteq> []"
proof -
  obtain evs r where pass: "replayPass EFF bus frames sent 0 frames = (evs, r)"
    by (cases "replayPass EFF bus frames sent 0 frames")
  have "\<exists>after. fst (replayLoop (Suc fuel) EFF bus frames loop sent) = evs @ after"
  proof (cases r)
    case None
    show ?thesis
    proof (cases loop)
      case True
      with None pass show ?thesis by (simp split: prod.splits)
    next
      case False
      with None pass show ?thesis by simp
    qed
  next
    case (Some e)
    with pass show ?thesis by simp
  qed
  then obtain after where evs: "fst (replayLoop (Suc fuel) EFF bus frames loop sent) = evs @ after"
    by blast
  from replayPass_attempts [of EFF bus frames sent 0 frames after] assms pass
  have att: "attemptsFrom [] (evs @ after)
      = take (length (published evs)) (passAttempts EFF frames 0 frames) @ attemptsFrom [] after"
    and some: "0 < length (published evs)"
    by simp_all
  from assms have "passAttempts EFF frames 0 frames \<noteq> []"
    by (cases frames) simp_all
  with some have "take (length (published evs)) (passAttempts EFF frames 0 frames) \<noteq> []"
    by simp
  with att evs show ?thesis
    by (simp add: attempts_def del: replayLoop.simps)
qed

lemma sleepCalls_small:
  fixes x :: u64
  assumes "uint x * 1000 < 2 ^ 63"
  shows "sleepCalls (x * Microsecond) = (if x = 0 then [] else [uint x * 1000])"
proof (cases "x = 0")
  case True
  then show ?thesis by (simp add: sleepCalls_def Microsecond_def)
next
  case False
  then have "uint x \<noteq> 0" by (simp add: uint_0_iff)
  moreover have "0 \<le> uint x" by simp
  ultimately have "0 < uint x" by linarith
  with sint_small [OF assms] False show ?thesis
    by (simp add: sleepCalls_def Microsecond_def word_sless_alt)
qed

section \<open>The digit loop of \<^verbatim>\<open>ParseUint\<close>\<close>

lemma unat_base8: "base \<le> 36 \<Longrightarrow> unat (word_of_nat base :: u8) = base"
  by (simp add: unat_of_nat)

lemma unat_base64: "base \<le> 36 \<Longrightarrow> unat (word_of_nat base :: u64) = base"
  by (simp add: unat_of_nat)

lemma unat_cutoff:
  assumes "2 \<le> base" "base \<le> 36"
  shows "unat (cutoff base) = (2 ^ 64 - 1) div base + 1"
proof -
  have "unat ((- 1 :: u64) div word_of_nat base) = (2 ^ 64 - 1) div base"
    using assms by (simp add: unat_div unat_base64 unsigned_minus_1_eq_mask mask_eq_exp_minus_1)
  moreover have "(2 ^ 64 - 1) div base < (2 ^ 64 - 1 :: nat)"
    using assms by (intro div_less_dividend) simp_all
  ultimately show ?thesis
    unfolding cutoff_def by (subst unat_add_lem [THEN iffD1]) simp_all
qed

lemma cutoff_le_iff:
  assumes "2 \<le> base" "base \<le> 36"
  shows "cutoff base \<le> n \<longleftrightarrow> 2 ^ 64 \<le> unat n * base"
proof -
  have "cutoff base \<le> n \<longleftrightarrow> (2 ^ 64 - 1) div base < unat n"
    by (simp add: word_le_nat_alt unat_cutoff [OF assms] Suc_le_eq)
  also have "\<dots> \<longleftrightarrow> 2 ^ 64 - 1 < unat n * base"
    using assms by (simp add: div_less_iff_less_mult)
  also have "\<dots> \<longleftrightarrow> 2 ^ 64 \<le> unat n * base"
    by auto
  finally show ?thesis .
qed


lemma unat_times_base:
  assumes "2 \<le> base" "base \<le> 36" "\<not> cutoff base \<le> n"
  shows "unat (n * word_of_nat base) = unat n * base"
proof -
  from assms have "unat n * base < 2 ^ 64"
    by (simp add: cutoff_le_iff)
  then have "unat n * unat (word_of_nat base :: u64) < 2 ^ LENGTH(64)"
    using assms by (simp add: unat_base64)
  then have "unat (n * word_of_nat base) = unat n * unat (word_of_nat base :: u64)"
    by (simp only: unat_mult_lem)
  then show ?thesis using assms by (simp add: unat_base64)
qed

lemma unat_digit: "unat (ucast (d :: u8) :: u64) = unat d"
proof -
  have "unat d < 2 ^ LENGTH(8)" by (rule unsigned_less)
  then have "unat d < 2 ^ 64" by simp
  then have "take_bit 64 (unat d) = unat d" by (rule take_bit_nat_eq_self)
  then show ?thesis by (simp add: unsigned_ucast_eq)
qed

lemma plus_digit_wraps:
  fixes n0 :: u64 and d :: u8
  shows "n0 + ucast d < n0 \<longleftrightarrow> 2 ^ 64 \<le> unat n0 + unat d"
proof -
  have "n0 \<le> n0 + ucast d \<longleftrightarrow> unat n0 + unat (ucast d :: u64) < 2 ^ LENGTH(64)"
    by (rule no_olen_add_nat)
  then show ?thesis by (auto simp: unat_digit not_le [symmetric] not_less)
qed

lemma unat_plus_digit:
  fixes n0 :: u64 and d :: u8
  assumes "\<not> n0 + ucast d < n0"
  shows "unat (n0 + ucast d) = unat n0 + unat d"
proof -
  from assms have "unat n0 + unat (ucast d :: u64) < 2 ^ LENGTH(64)"
    by (simp add: plus_digit_wraps unat_digit)
  then have "unat (n0 + ucast d) = unat n0 + unat (ucast d :: u64)"
    by (simp only: unat_add_lem)
  then show ?thesis by (simp add: unat_digit)
qed


lemma digitsValueFrom_Cons:
  "digitsValueFrom base v (c # cs) = digitsValueFrom base (v * base + digitOf c) cs"
  by (simp add: digitsValueFrom_def)

lemma digitsValueFrom_ge: "0 < base \<Longrightarrow> v \<le> digitsValueFrom base v s"
proof (induction s arbitrary: v)
  case Nil
  then show ?case by (simp add: digitsValueFrom_def)
next
  case (Cons c cs)
  from Cons.prems have "v \<le> v * base + digitOf c"
    by (simp add: trans_le_add1)
  also from Cons.IH [OF Cons.prems] have "\<dots> \<le> digitsValueFrom base (v * base + digitOf c) cs" .
  finally show ?case by (simp add: digitsValueFrom_Cons)
qed

text \<open>One round of the digit loop, when it goes on to the next digit.\<close>

lemma parseUintLoop_step:
  assumes "2 \<le> base" "base \<le> 36"
    and "digitVal c = Some d" "\<not> word_of_nat base \<le> d" "\<not> cutoff base \<le> n"
    and "\<not> (n * word_of_nat base + ucast d < n * word_of_nat base)"
  shows "unat (n * word_of_nat base + ucast d) = unat n * base + digitOf c"
    and "isDigit base c"
proof -
  from assms(1-2,4) have "unat d < base"
    by (simp add: word_le_nat_alt unat_base8)
  with assms(3) show "isDigit base c" by (simp add: isDigit_def)
  from assms(3) have "digitOf c = unat d" by (simp add: digitOf_def)
  with unat_plus_digit [OF assms(6)] unat_times_base [OF assms(1,2,5)]
  show "unat (n * word_of_nat base + ucast d) = unat n * base + digitOf c" by simp
qed

lemma parseUintLoop_Inr:
  assumes "2 \<le> base" "base \<le> 36"
  shows "parseUintLoop base maxVal n s = Inr r \<Longrightarrow>
     isDigits base s \<and> unat r = digitsValueFrom base (unat n) s"
proof (induction s arbitrary: n)
  case Nil
  then show ?case by (simp add: isDigits_def digitsValueFrom_def)
next
  case (Cons c cs)
  from Cons.prems obtain d where d: "digitVal c = Some d"
    and small: "\<not> word_of_nat base \<le> d" and cut: "\<not> cutoff base \<le> n"
    and nowrap: "\<not> (n * word_of_nat base + ucast d < n * word_of_nat base)"
    and rest: "parseUintLoop base maxVal (n * word_of_nat base + ucast d) cs = Inr r"
    by (auto simp: Let_def split: option.splits if_splits)
  note step = parseUintLoop_step [OF assms d small cut nowrap]
  from Cons.IH [OF rest] step show ?case
    by (simp add: isDigits_def digitsValueFrom_Cons)
qed

lemma parseUintLoop_range:
  assumes "2 \<le> base" "base \<le> 36"
  shows "isDigits base s \<Longrightarrow> unat maxVal < digitsValueFrom base (unat n) s \<Longrightarrow>
     unat n \<le> unat maxVal \<Longrightarrow> parseUintLoop base maxVal n s = Inl ErrRange"
proof (induction s arbitrary: n)
  case Nil
  then show ?case by (simp add: digitsValueFrom_def)
next
  case (Cons c cs)
  from Cons.prems(1) obtain d where d: "digitVal c = Some d" and lt: "unat d < base"
    and cs: "isDigits base cs"
    by (auto simp: isDigits_def isDigit_def split: option.splits)
  from lt assms have small: "\<not> word_of_nat base \<le> d"
    by (simp add: word_le_nat_alt unat_base8)
  show ?case
  proof (cases "cutoff base \<le> n \<or> n * word_of_nat base + ucast d < n * word_of_nat base
      \<or> maxVal < n * word_of_nat base + ucast d")
    case True
    with d small show ?thesis by (auto simp: Let_def)
  next
    case False
    then have cut: "\<not> cutoff base \<le> n"
      and nowrap: "\<not> (n * word_of_nat base + ucast d < n * word_of_nat base)"
      and fits: "\<not> maxVal < n * word_of_nat base + ucast d"
      by simp_all
    note step = parseUintLoop_step [OF assms d small cut nowrap]
    from fits have le: "unat (n * word_of_nat base + ucast d) \<le> unat maxVal"
      by (simp add: word_less_nat_alt)
    from Cons.prems(2) step have "unat maxVal
        < digitsValueFrom base (unat (n * word_of_nat base + ucast d)) cs"
      by (simp add: digitsValueFrom_Cons)
    from Cons.IH [OF cs this le] d small False show ?thesis
      by (simp add: Let_def)
  qed
qed

lemma parseUintLoop_value:
  assumes "2 \<le> base" "base \<le> 36"
  shows "isDigits base s \<Longrightarrow> digitsValueFrom base (unat n) s \<le> unat maxVal \<Longrightarrow>
     parseUintLoop base maxVal n s = Inr (word_of_nat (digitsValueFrom base (unat n) s))"
proof (induction s arbitrary: n)
  case Nil
  then show ?case by (simp add: digitsValueFrom_def)
next
  case (Cons c cs)
  from Cons.prems(1) obtain d where d: "digitVal c = Some d" and lt: "unat d < base"
    and cs: "isDigits base cs"
    by (auto simp: isDigits_def isDigit_def split: option.splits)
  from lt assms have small: "\<not> word_of_nat base \<le> d"
    by (simp add: word_le_nat_alt unat_base8)
  from d have dig: "digitOf c = unat d" by (simp add: digitOf_def)
  from assms have pos: "0 < base" by simp
  have "unat n * base + unat d \<le> digitsValueFrom base (unat n * base + digitOf c) cs"
    using digitsValueFrom_ge [OF pos] dig by simp
  also have "\<dots> \<le> unat maxVal"
    using Cons.prems(2) by (simp add: digitsValueFrom_Cons)
  finally have bound: "unat n * base + unat d \<le> unat maxVal" .
  have "unat maxVal < 2 ^ LENGTH(64)" by (rule unsigned_less)
  with bound have lt64: "unat n * base + unat d < 2 ^ 64" by simp
  then have cut: "\<not> cutoff base \<le> n"
    by (simp add: cutoff_le_iff [OF assms])
  from lt64 unat_times_base [OF assms cut]
  have nowrap: "\<not> (n * word_of_nat base + ucast d < n * word_of_nat base)"
    by (simp add: plus_digit_wraps)
  note step = parseUintLoop_step [OF assms d small cut nowrap]
  from bound step dig have fits: "\<not> maxVal < n * word_of_nat base + ucast d"
    by (simp add: word_less_nat_alt)
  from Cons.prems(2) step have "digitsValueFrom base (unat (n * word_of_nat base + ucast d)) cs
      \<le> unat maxVal"
    by (simp add: digitsValueFrom_Cons)
  from Cons.IH [OF cs this] step d small cut nowrap fits show ?case
    by (simp add: Let_def digitsValueFrom_Cons)
qed

lemma parseUintLoop_le:
  "parseUintLoop base maxVal n s = Inr r \<Longrightarrow> n \<le> maxVal \<Longrightarrow> r \<le> maxVal"
proof (induction s arbitrary: n)
  case Nil
  then show ?case by simp
next
  case (Cons c cs)
  then show ?case
    by (auto simp: Let_def split: option.splits if_splits)
qed

lemma ParseUint_le: "ParseUint s base bitSize = Inr r \<Longrightarrow> r \<le> push_bit bitSize 1 - 1"
  using parseUintLoop_le [of base "push_bit bitSize 1 - 1" 0 s r]
  by (simp add: ParseUint_def split: if_splits)

lemma ParseUint_u8:
  assumes "ParseUint s base 8 = Inr r"
  shows "unat (ucast r :: u8) = unat r"
proof -
  from ParseUint_le [OF assms] have "r \<le> 255" by simp
  then have "unat r \<le> 255" by (simp add: word_le_nat_alt)
  then have "take_bit 8 (unat r) = unat r"
    by (simp add: take_bit_nat_eq_self_iff)
  then show ?thesis by (simp add: unsigned_ucast_eq)
qed

lemma idStrOf_nonempty: "idStrOf col \<noteq> []"
  by (simp add: idStrOf_def Let_def)

lemma unat_maxVal32: "unat (push_bit 32 1 - 1 :: u64) = 2 ^ 32 - 1"
  by simp

lemma parseCANID_range:
  assumes "isDigits 16 (idStrOf col)" and "2 ^ 32 \<le> digitsValue 16 (idStrOf col)"
  shows "parseCANID col = Inl ErrRange"
proof -
  from assms(2) have "unat (push_bit 32 1 - 1 :: u64) < digitsValueFrom 16 (unat (0 :: u64)) (idStrOf col)"
    by (simp add: digitsValue_def)
  from parseUintLoop_range [OF _ _ assms(1) this] show ?thesis
    by (simp add: parseCANID_def ParseUint_def idStrOf_nonempty)
qed

lemma parseCANID_value:
  assumes "isDigits 16 (idStrOf col)" and "digitsValue 16 (idStrOf col) < 2 ^ 32"
  shows "parseCANID col = Inr (word_of_nat (digitsValue 16 (idStrOf col)))"
proof -
  from assms(2) have "digitsValueFrom 16 (unat (0 :: u64)) (idStrOf col) \<le> unat (push_bit 32 1 - 1 :: u64)"
    by (simp add: digitsValue_def)
  from parseUintLoop_value [OF _ _ assms(1) this] show ?thesis
    by (simp add: parseCANID_def ParseUint_def idStrOf_nonempty digitsValue_def)
qed

lemma parseCANID_Inr:
  assumes "parseCANID col = Inr r"
  shows "isDigits 16 (idStrOf col)" and "unat r = digitsValue 16 (idStrOf col)"
    and "digitsValue 16 (idStrOf col) < 2 ^ 32"
proof -
  from assms have loop: "parseUintLoop 16 (push_bit 32 1 - 1) 0 (idStrOf col) = Inr r"
    by (simp add: parseCANID_def ParseUint_def idStrOf_nonempty)
  from parseUintLoop_Inr [OF _ _ loop] show d: "isDigits 16 (idStrOf col)"
    and v: "unat r = digitsValue 16 (idStrOf col)"
    by (simp_all add: digitsValue_def)
  from parseUintLoop_le [OF loop] have "r \<le> push_bit 32 1 - 1" by simp
  then have "unat r \<le> 2 ^ 32 - 1" by (simp add: word_le_nat_alt)
  with v show "digitsValue 16 (idStrOf col) < 2 ^ 32" by simp
qed

section \<open>The payload loop\<close>

lemma parseData_Ok:
  "parseData record len i data = Ok data' \<Longrightarrow>
     length data' = length data
   \<and> (\<forall>j. i \<le> j \<and> j < unat len \<and> j < 8 \<and> j < length data \<longrightarrow>
          6 + j < length record
        \<and> DecodeString (dataStrOf (record ! (6 + j))) = ([data' ! j], None))
   \<and> (\<forall>j. j < length data \<and> (j < i \<or> 8 \<le> j \<or> unat len \<le> j) \<longrightarrow> data' ! j = data ! j)"
proof (induction "record" len i data rule: parseData.induct)
  case (1 row len i data)
  show ?case
  proof (cases "i < unat len \<and> i < 8")
    case False
    with "1.prems" have "data' = data"
      by (simp add: parseData.simps)
    with False show ?thesis by auto
  next
    case True
    with "1.prems" have present: "6 + i < length row"
      by (auto simp: parseData.simps split: if_splits)
    obtain b err where dec: "DecodeString (dataStrOf (row ! (6 + i))) = (b, err)"
      by (cases "DecodeString (dataStrOf (row ! (6 + i)))")
    with True present "1.prems" have good: "err = None" "length b = 1"
      and rec: "parseData row len (i + 1) (data[i := b ! 0]) = Ok data'"
      by (auto simp: parseData.simps [of row len i] Let_def split: if_splits)
    from good have b: "b = [b ! 0]"
      by (cases b) auto
    from True present dec good have "\<not> length row \<le> 6 + i" 
      and "(b, err) = DecodeString (dataStrOf (row ! (6 + i)))"
      and "\<not> (err \<noteq> None \<or> length b \<noteq> 1)"
      by simp_all
    from "1.IH" [OF True this(1) refl this(2) this(3) rec]
    have len': "length data' = length data"
      and dec': "\<forall>j. i + 1 \<le> j \<and> j < unat len \<and> j < 8 \<and> j < length data \<longrightarrow>
          6 + j < length row
        \<and> DecodeString (dataStrOf (row ! (6 + j))) = ([data' ! j], None)"
      and keep: "\<forall>j. j < length data \<and> (j < i + 1 \<or> 8 \<le> j \<or> unat len \<le> j) \<longrightarrow>
          data' ! j = data[i := b ! 0] ! j"
      by simp_all
    have here: "i < length data \<longrightarrow> data' ! i = b ! 0"
      using keep by simp
    show ?thesis
    proof (intro conjI allI impI)
      show "length data' = length data" by (rule len')
    next
      fix j assume j: "i \<le> j \<and> j < unat len \<and> j < 8 \<and> j < length data"
      show "6 + j < length row"
      proof (cases "j = i")
        case True with present show ?thesis by simp
      next
        case False with j dec' show ?thesis by simp
      qed
      show "DecodeString (dataStrOf (row ! (6 + j))) = ([data' ! j], None)"
      proof (cases "j = i")
        case True
        with j here have "data' ! j = b ! 0" by simp
        with True dec good b show ?thesis by simp
      next
        case False with j dec' show ?thesis by simp
      qed
    next
      fix j assume j: "j < length data \<and> (j < i \<or> 8 \<le> j \<or> unat len \<le> j)"
      with True have "j \<noteq> i" by auto
      moreover from j have "j < length data \<and> (j < i + 1 \<or> 8 \<le> j \<or> unat len \<le> j)" by auto
      ultimately show "data' ! j = data ! j" using keep by simp
    qed
  qed
qed

lemma parseData_decodable:
  assumes "\<forall>j. i \<le> j \<and> j < unat len \<and> j < 8 \<longrightarrow>
      6 + j < length record
    \<and> (\<exists>v. DecodeString (dataStrOf (record ! (6 + j))) = ([v], None))"
  shows "\<exists>data'. parseData record len i data = Ok data'"
  using assms
proof (induction "record" len i data rule: parseData.induct)
  case (1 row len i data)
  show ?case
  proof (cases "i < unat len \<and> i < 8")
    case False
    then have "parseData row len i data = Ok data"
      by (subst parseData.simps) auto
    then show ?thesis by blast
  next
    case True
    with "1.prems" have present: "6 + i < length row"
      and "\<exists>v. DecodeString (dataStrOf (row ! (6 + i))) = ([v], None)"
      by auto
    then obtain v where dec: "DecodeString (dataStrOf (row ! (6 + i))) = ([v], None)"
      by blast
    from "1.prems" have later: "\<forall>j. i + 1 \<le> j \<and> j < unat len \<and> j < 8 \<longrightarrow>
      6 + j < length row
    \<and> (\<exists>v. DecodeString (dataStrOf (row ! (6 + j))) = ([v], None))"
      by auto
    from present dec have "\<not> length row \<le> 6 + i"
      and "([v], None) = DecodeString (dataStrOf (row ! (6 + i)))"
      and "\<not> (None \<noteq> (None :: hex_error option) \<or> length [v] \<noteq> 1)"
      by simp_all
    from "1.IH" [OF True this(1) refl this(2) this(3) later]
    obtain data' where "parseData row len (i + 1) (data[i := [v] ! 0]) = Ok data'"
      by blast
    with True present dec show ?thesis
      by (simp add: parseData.simps [of row len i] Let_def)
  qed
qed

lemma parseCANFrame_Ok:
  assumes "parseCANFrame record = Ok frame"
  shows "\<exists>ts (ident :: u64) (n :: u64) data.
      5 < length record
    \<and> ParseUint (record ! 0) 10 64 = Inr ts
    \<and> parseCANID (record ! 1) = Inr ident
    \<and> ParseUint (record ! 5) 10 8 = Inr n
    \<and> parseData record (ucast n) 0 (replicate (unat (ucast n :: u8)) 0) = Ok data
    \<and> frame = \<lparr>Timestamp = ts, ID = ucast ident, Extended = (ToLower (record ! 2) = ''true''),
                Data = data, Length = ucast n\<rparr>"
  using assms
  by (auto simp: parseCANFrame_def parseLength_def parsePayload_def Let_def
      split: if_splits sum.splits outcome.splits)

lemma parseData_cong:
  assumes "length r' = length r" and "\<forall>j. 6 \<le> j \<longrightarrow> r' ! j = r ! j"
  shows "parseData r' len i data = parseData r len i data"
  using assms
proof (induction r len i data rule: parseData.induct)
  case (1 row len i data)
  show ?case
  proof (cases "i < unat len \<and> i < 8 \<and> \<not> length row \<le> 6 + i")
    case False
    with "1.prems" show ?thesis
      by (subst parseData.simps [of r'], subst parseData.simps [of row]) auto
  next
    case True
    from "1.prems" have same: "r' ! (6 + i) = row ! (6 + i)" by simp
    obtain b err where dec: "DecodeString (dataStrOf (row ! (6 + i))) = (b, err)"
      by (cases "DecodeString (dataStrOf (row ! (6 + i)))")
    show ?thesis
    proof (cases "err \<noteq> None \<or> length b \<noteq> 1")
      case bad: True
      with True dec same "1.prems" show ?thesis
        by (subst parseData.simps [of r'], subst parseData.simps [of row]) (auto simp: Let_def)
    next
      case good: False
      from True dec good have "i < unat len \<and> i < 8" and "\<not> length row \<le> 6 + i"
        and "(b, err) = DecodeString (dataStrOf (row ! (6 + i)))"
        and "\<not> (err \<noteq> None \<or> length b \<noteq> 1)"
        by simp_all
      from "1.IH" [OF this(1) this(2) refl this(3) this(4) "1.prems"]
      have "parseData r' len (i + 1) (data[i := b ! 0]) = parseData row len (i + 1) (data[i := b ! 0])" .
      with True dec good same "1.prems" show ?thesis
        by (subst parseData.simps [of r'], subst parseData.simps [of row]) (auto simp: Let_def)
    qed
  qed
qed

section \<open>The identifier column\<close>

lemma x_is_no_hex_digit: "\<not> isDigit 16 (CHR ''x'')"
  by (simp add: isDigit_def digitVal_def lower_def word_le_def)

lemma zero_is_hex_digit: "isDigit 16 (CHR ''0'')"
  by (simp add: isDigit_def digitVal_def lower_def word_le_def)

lemma digitOf_zero: "digitOf (CHR ''0'') = 0"
  by (simp add: digitOf_def digitVal_def lower_def word_le_def)

lemma dropWhile_zeros:
  assumes "s = [] \<or> hd s \<noteq> CHR ''0''"
  shows "dropWhile (\<lambda>c. c \<in> set ''0'') (replicate k (CHR ''0'') @ s) = s"
proof -
  have "dropWhile (\<lambda>c. c \<in> set ''0'') (replicate k (CHR ''0'') @ s)
      = dropWhile (\<lambda>c. c \<in> set ''0'') s"
    by (induction k) simp_all
  also from assms have "\<dots> = s" by (cases s) auto
  finally show ?thesis .
qed

lemma no_prefix_0x:
  assumes "isDigits 16 s" and "s = [] \<or> hd s \<noteq> CHR ''0''"
  shows "\<not> prefix ''0x'' (replicate k (CHR ''0'') @ s)"
proof (cases k)
  case 0
  with assms(2) show ?thesis by (cases s) auto
next
  case (Suc k')
  show ?thesis
  proof (cases k')
    case 0
    with Suc assms(1) x_is_no_hex_digit show ?thesis
      by (cases s) (auto simp: isDigits_def)
  next
    case (Suc k'')
    with \<open>k = Suc k'\<close> show ?thesis by simp
  qed
qed

lemma idStrOf_zeros:
  assumes "isDigits 16 s" and "s = [] \<or> hd s \<noteq> CHR ''0''"
  shows "idStrOf (replicate k (CHR ''0'') @ s) = (if s = [] then ''0'' else s)"
    and "idStrOf (''0x'' @ replicate k (CHR ''0'') @ s) = (if s = [] then ''0'' else s)"
proof -
  have left: "TrimLeft (replicate k (CHR ''0'') @ s) ''0'' = s"
    unfolding TrimLeft_def by (rule dropWhile_zeros [OF assms(2)])
  from no_prefix_0x [OF assms]
  have "TrimPrefix (replicate k (CHR ''0'') @ s) ''0x'' = replicate k (CHR ''0'') @ s"
    by (simp only: TrimPrefix_def if_False)
  then show "idStrOf (replicate k (CHR ''0'') @ s) = (if s = [] then ''0'' else s)"
    by (simp only: idStrOf_def Let_def left)
  have "TrimPrefix (''0x'' @ replicate k (CHR ''0'') @ s) ''0x'' = replicate k (CHR ''0'') @ s"
    by (simp add: TrimPrefix_def)
  then show "idStrOf (''0x'' @ replicate k (CHR ''0'') @ s) = (if s = [] then ''0'' else s)"
    by (simp only: idStrOf_def Let_def left)
qed

section \<open>The parser on concrete rows\<close>

text \<open>
  C9. The identifier column is read as follows: an optional prefix \<^verbatim>\<open>0x\<close> and the
  leading zeros are stripped, and the rest is read in base 16. For a string \<open>s\<close> of
  hexadecimal digits that does not start with a zero and denotes a number below
  \<open>2 ^ 32\<close>, any number of zeros before it, with or without the prefix, gives that
  number; the empty \<open>s\<close> gives 0. So \<^verbatim>\<open>0x0005F4\<close>, \<^verbatim>\<open>5F4\<close> and \<^verbatim>\<open>05f4\<close> all parse
  to 0x5F4 and \<^verbatim>\<open>00000000\<close> parses to 0, alone and inside a row.
\<close>

theorem identifier_parsing:
  assumes "isDigits 16 s" and "s = [] \<or> hd s \<noteq> CHR ''0''" and "digitsValue 16 s < 2 ^ 32"
  shows "parseCANID (replicate k (CHR ''0'') @ s) = Inr (word_of_nat (digitsValue 16 s))
     \<and> parseCANID (''0x'' @ replicate k (CHR ''0'') @ s) = Inr (word_of_nat (digitsValue 16 s))"
proof -
  let ?t = "if s = [] then ''0'' else s"
  from assms(1) zero_is_hex_digit have d: "isDigits 16 ?t"
    by (simp add: isDigits_def)
  have v: "digitsValue 16 ?t = digitsValue 16 s"
    by (simp add: digitsValue_def digitsValueFrom_def digitOf_zero)
  note strip = idStrOf_zeros [OF assms(1,2), of k]
  from d v assms(3) strip
    parseCANID_value [of "replicate k (CHR ''0'') @ s"]
    parseCANID_value [of "''0x'' @ replicate k (CHR ''0'') @ s"]
  show ?thesis by simp
qed

theorem identifier_parsing_witness:
  "parseCANID ''0x0005F4'' = Inr 0x5F4 \<and> parseCANID ''5F4'' = Inr 0x5F4
   \<and> parseCANID ''05f4'' = Inr 0x5F4 \<and> parseCANID ''00000000'' = Inr 0
   \<and> map (\<lambda>c. parseCANFrame (exampleRow c ''false'' ''8''))
        [''0x0005F4'', ''5F4'', ''05f4'', ''00000000'']
     = map (\<lambda>v. Ok \<lparr>Timestamp = 18970798, ID = v, Extended = False,
                      Data = [0x00, 0x09, 0x1C, 0x46, 0x00, 0x00, 0x00, 0x01], Length = 8\<rparr>)
        [0x5F4, 0x5F4, 0x5F4, 0]"
proof -
  have digits: "isDigits 16 ''5F4''" "isDigits 16 ''5f4''" "isDigits 16 []"
    by (simp_all add: isDigits_def isDigit_def digitVal_def lower_def word_le_def)
  have val: "digitsValue 16 ''5F4'' = 0x5F4" "digitsValue 16 ''5f4'' = 0x5F4"
    "digitsValue 16 [] = 0"
    by (simp_all add: digitsValue_def digitsValueFrom_def digitOf_def digitVal_def lower_def
        word_le_def)
  have heads: "''5F4'' = [] \<or> hd ''5F4'' \<noteq> CHR ''0''" "''5f4'' = [] \<or> hd ''5f4'' \<noteq> CHR ''0''"
    "([] :: string) = [] \<or> hd [] \<noteq> CHR ''0''"
    by simp_all
  have small: "digitsValue 16 ''5F4'' < 2 ^ 32" "digitsValue 16 ''5f4'' < 2 ^ 32"
    "digitsValue 16 [] < 2 ^ 32"
    by (simp_all add: val)
  have cols: "''0x'' @ replicate 3 (CHR ''0'') @ ''5F4'' = ''0x0005F4''"
    "replicate 0 (CHR ''0'') @ ''5F4'' = ''5F4''"
    "replicate 1 (CHR ''0'') @ ''5f4'' = ''05f4''"
    "replicate 8 (CHR ''0'') @ [] = ''00000000''"
    by (simp_all add: eval_nat_numeral)
  have rows: "map (\<lambda>c. parseCANFrame (exampleRow c ''false'' ''8''))
        [''0x0005F4'', ''5F4'', ''05f4'', ''00000000'']
     = map (\<lambda>v. Ok \<lparr>Timestamp = 18970798, ID = v, Extended = False,
                      Data = [0x00, 0x09, 0x1C, 0x46, 0x00, 0x00, 0x00, 0x01], Length = 8\<rparr>)
        [0x5F4, 0x5F4, 0x5F4, 0]"
    by code_simp
  from identifier_parsing [OF digits(1) heads(1) small(1), of 3]
  have a: "parseCANID ''0x0005F4'' = Inr 0x5F4"
    by (simp only: cols val) simp
  from identifier_parsing [OF digits(1) heads(1) small(1), of 0]
  have b: "parseCANID ''5F4'' = Inr 0x5F4"
    by (simp only: cols val) simp
  from identifier_parsing [OF digits(2) heads(2) small(2), of 1]
  have c: "parseCANID ''05f4'' = Inr 0x5F4"
    by (simp only: cols val) simp
  from identifier_parsing [OF digits(3) heads(3) small(3), of 8]
  have d: "parseCANID ''00000000'' = Inr 0"
    by (simp only: cols val) simp
  from a b c d rows show ?thesis by (simp only: simp_thms)
qed

text \<open>
  C1. A row whose length column asks for a payload column that the row does not have
  should be skipped with a reason that names the column. Here the table has twelve
  columns and the row declares eight payload bytes: the six payload columns present
  decode, the read of the seventh is out of range, and the program panics. Where the
  column is there and does not decode, the row is skipped with the column's name and
  the next row is parsed.
\<close>

theorem missing_payload_column_crashes:
  "parseCSV (Rows [header12, row12 ''8'']) = Crashed
   \<and> ReadAll 0 [header12, row12 ''8''] = Some [header12, row12 ''8'']
   \<and> length (row12 ''8'') = 12
   \<and> parseCANFrame (row12 ''8'') = Panic
   \<and> parseCSV (Rows [header12, (row12 ''8'')[7 := ''zz''], row12 ''6''])
     = Parsed [\<lparr>Timestamp = 18970798, ID = 0x5F4, Extended = False,
                 Data = [0x00, 0x09, 0x1C, 0x46, 0x00, 0x00], Length = 6\<rparr>]
              [SkippedRow 2 (InvalidDataByte 2 ''zz'')]"
  by code_simp

text \<open>
  C3. A row with fewer than twelve columns should be skipped with a warning, and the
  rows after it parsed. Here a row of three columns follows a header of fourteen:
  \<^verbatim>\<open>ReadAll\<close> rejects the file for its field count, and no row is parsed at all.
  The rows are skipped one by one, with their positions, only in a file whose header
  is as short as they are.
\<close>

theorem short_row_aborts_read:
  "parseCSV (Rows [header14, exampleRow ''000005F4'' ''false'' ''8'', [''1'', ''2'', ''3''],
                   exampleRow ''000005F4'' ''false'' ''8'']) = ReadError
   \<and> parseCSV (Rows [take 3 header14, [''1'', ''2'', ''3''], [''4'', ''5'', ''6'']])
     = Parsed [] [InsufficientColumns 2, InsufficientColumns 3]"
  by code_simp

section \<open>The scheduler on the empty trace\<close>

text \<open>
  C7. On an empty trace \<^verbatim>\<open>replayFrames\<close> returns the error \<^verbatim>\<open>"no frames to replay"\<close>
  and has done nothing before: no frame is published and no sleep is made, whatever
  the bus and the loop flag.
\<close>

theorem replay_empty_trace:
  "replayFrames fuel EFF bus [] loop = ([], Returned (Some NoFrames))"
  by (simp add: replayFrames_def)

section \<open>Transmission failures\<close>

text \<open>
  C6. When the call of \<^verbatim>\<open>Publish\<close> for the frame at index \<open>k\<close> of pass \<open>p\<close> (both from 0)
  is the first to fail, \<^verbatim>\<open>replayFrames\<close> returns the error that carries \<open>k\<close> and the
  identifier of that frame. The frames published are those of the \<open>p\<close> passes before,
  then the frames 0 to \<open>k\<close> of this pass, each once: nothing is sent after the failure
  and the failed frame is not sent again. A pass after the first needs the loop flag.
\<close>

theorem transmission_failure_aborts:
  assumes "k < length frames"
    and "\<forall>j < p * length frames + k. bus j"
    and "\<not> bus (p * length frames + k)"
    and "loop \<or> p = 0"
    and "p < fuel"
  shows "snd (replayFrames fuel EFF bus frames loop)
           = Returned (Some (SendFailed k (ID (frames ! k))))
     \<and> published (fst (replayFrames fuel EFF bus frames loop))
           = concat (replicate p (map (encodeFrame EFF) frames))
             @ map (encodeFrame EFF) (take (Suc k) frames)"
proof -
  from assms(1) have "length frames \<noteq> 0" by auto
  then have "replayFrames fuel EFF bus frames loop = replayLoop fuel EFF bus frames loop 0"
    by (simp add: replayFrames_def)
  moreover from assms(2) have "\<forall>j < p * length frames + k. bus (0 + j)" by simp
  moreover from assms(3) have "\<not> bus (0 + (p * length frames + k))" by simp
  ultimately show ?thesis
    using replayLoop_fail [OF assms(1) _ _ assms(4) assms(5), of bus 0 EFF] by simp
qed

theorem transmission_failure_aborts_witness:
  "snd (replayFrames 5 0x80 (\<lambda>n. n \<noteq> 4) [frameAt 100, frameAt 150, frameAt 400] True)
     = Returned (Some (SendFailed 1 0x5F4))
   \<and> published (fst (replayFrames 5 0x80 (\<lambda>n. n \<noteq> 4) [frameAt 100, frameAt 150, frameAt 400] True))
     = map (encodeFrame 0x80)
         [frameAt 100, frameAt 150, frameAt 400, frameAt 100, frameAt 150]"
  using transmission_failure_aborts
    [of 1 "[frameAt 100, frameAt 150, frameAt 400]" 1 "\<lambda>n. n \<noteq> 4" True 5 "0x80"]
  by (simp add: frameAt_def)

section \<open>The loop flag\<close>

text \<open>
  C8. For a non-empty trace. Without the loop flag, and when the calls of \<^verbatim>\<open>Publish\<close>
  of the pass succeed, \<^verbatim>\<open>replayFrames\<close> returns success after one pass: every frame
  has been published once, in order. With the loop flag, and as long as the calls
  succeed, the scheduler has not returned after any number of passes, it has published
  the trace once per pass, and the first frame of every pass is sent with no sleep
  since the frame before it, the last one of the pass before. It goes on until a call
  fails, and then returns the error of that frame.
\<close>

theorem loop_flag_semantics:
  assumes "frames \<noteq> []"
  shows "((\<forall>j < length frames. bus j) \<and> 0 < fuel \<longrightarrow>
            snd (replayFrames fuel EFF bus frames False) = Returned None
          \<and> published (fst (replayFrames fuel EFF bus frames False)) = map (encodeFrame EFF) frames)
     \<and> ((\<forall>j < fuel * length frames. bus j) \<longrightarrow>
            snd (replayFrames fuel EFF bus frames True) = Running
          \<and> published (fst (replayFrames fuel EFF bus frames True))
              = concat (replicate fuel (map (encodeFrame EFF) frames))
          \<and> length (delays (fst (replayFrames fuel EFF bus frames True))) = fuel * length frames
          \<and> (\<forall>p < fuel. delays (fst (replayFrames fuel EFF bus frames True)) ! (p * length frames) = 0))
     \<and> (k < length frames \<and> (\<forall>j < p * length frames + k. bus j) \<and> \<not> bus (p * length frames + k)
          \<and> p < fuel \<longrightarrow>
            snd (replayFrames fuel EFF bus frames True)
              = Returned (Some (SendFailed k (ID (frames ! k))))
          \<and> length (published (fst (replayFrames fuel EFF bus frames True)))
              = p * length frames + k + 1)"
proof (intro conjI impI)
  from assms have unfold: "\<And>loop. replayFrames fuel EFF bus frames loop = replayLoop fuel EFF bus frames loop 0"
    by (simp add: replayFrames_def)
  {
    assume a: "(\<forall>j < length frames. bus j) \<and> 0 < fuel"
    then obtain fuel' where fuel: "fuel = Suc fuel'" by (cases fuel) auto
    from a have ok: "\<forall>j < length frames. bus (0 + j)" by simp
    from replayLoop_once [OF ok, of fuel' EFF] replayPass_ok [OF ok, of EFF frames 0] fuel unfold
    show "snd (replayFrames fuel EFF bus frames False) = Returned None"
      and "published (fst (replayFrames fuel EFF bus frames False)) = map (encodeFrame EFF) frames"
      by simp_all
  }
  {
    assume "\<forall>j < fuel * length frames. bus j"
    then have ok: "\<forall>j < fuel * length frames. bus (0 + j)" by simp
    note run = replayLoop_ok [OF ok, of EFF]
    from run unfold show "snd (replayFrames fuel EFF bus frames True) = Running"
      and "published (fst (replayFrames fuel EFF bus frames True))
              = concat (replicate fuel (map (encodeFrame EFF) frames))"
      by simp_all
    from run unfold have d: "delays (fst (replayFrames fuel EFF bus frames True))
        = concat (replicate fuel (passDelays frames 0 frames))"
      by (simp add: delays_def)
    show "length (delays (fst (replayFrames fuel EFF bus frames True))) = fuel * length frames"
      by (simp add: d length_concat length_passDelays sum_list_replicate)
    show "\<forall>p < fuel. delays (fst (replayFrames fuel EFF bus frames True)) ! (p * length frames) = 0"
    proof (intro allI impI)
      fix p assume p: "p < fuel"
      from assms obtain frame rest where fr: "frames = frame # rest" by (cases frames) auto
      from assms have "0 < length (passDelays frames 0 frames)"
        by (simp add: length_passDelays)
      from nth_concat_replicate [OF p this] have
        "concat (replicate fuel (passDelays frames 0 frames)) ! (p * length frames)
           = passDelays frames 0 frames ! 0"
        by (simp add: length_passDelays)
      also have "\<dots> = 0" unfolding fr by (rule hd_passDelays)
      finally show "delays (fst (replayFrames fuel EFF bus frames True)) ! (p * length frames) = 0"
        by (simp add: d)
    qed
  }
  {
    assume a: "k < length frames \<and> (\<forall>j < p * length frames + k. bus j)
        \<and> \<not> bus (p * length frames + k) \<and> p < fuel"
    then have 1: "k < length frames" and 2: "\<forall>j < p * length frames + k. bus (0 + j)"
      and 3: "\<not> bus (0 + (p * length frames + k))" and 4: "True \<or> p = 0" and 5: "p < fuel"
      by simp_all
    from replayLoop_fail [OF 1 2 3 4 5, of EFF] unfold 1
    show "snd (replayFrames fuel EFF bus frames True)
              = Returned (Some (SendFailed k (ID (frames ! k))))"
      and "length (published (fst (replayFrames fuel EFF bus frames True)))
              = p * length frames + k + 1"
      by (simp_all add: length_concat sum_list_replicate)
  }
qed

theorem loop_flag_semantics_witness:
  "snd (replayFrames 2 0x80 (\<lambda>n. True) [frameAt 100, frameAt 150, frameAt 400] False) = Returned None
   \<and> published (fst (replayFrames 2 0x80 (\<lambda>n. True) [frameAt 100, frameAt 150, frameAt 400] False))
       = map (encodeFrame 0x80) [frameAt 100, frameAt 150, frameAt 400]
   \<and> snd (replayFrames 2 0x80 (\<lambda>n. True) [frameAt 100, frameAt 150, frameAt 400] True) = Running
   \<and> published (fst (replayFrames 2 0x80 (\<lambda>n. True) [frameAt 100, frameAt 150, frameAt 400] True))
       = map (encodeFrame 0x80)
           [frameAt 100, frameAt 150, frameAt 400, frameAt 100, frameAt 150, frameAt 400]
   \<and> delays (fst (replayFrames 2 0x80 (\<lambda>n. True) [frameAt 100, frameAt 150, frameAt 400] True))
       = [0, 50000, 250000, 0, 50000, 250000]
   \<and> snd (replayFrames 2 0x80 (\<lambda>n. n \<noteq> 4) [frameAt 100, frameAt 150, frameAt 400] True)
       = Returned (Some (SendFailed 1 0x5F4))
   \<and> length (published (fst (replayFrames 2 0x80 (\<lambda>n. n \<noteq> 4)
         [frameAt 100, frameAt 150, frameAt 400] True))) = 5"
  using loop_flag_semantics [of "[frameAt 100, frameAt 150, frameAt 400]" "\<lambda>n. True" 2 "0x80" 0 0]
    loop_flag_semantics [of "[frameAt 100, frameAt 150, frameAt 400]" "\<lambda>n. n \<noteq> 4" 2 "0x80" 1 1]
  by (simp add: replayFrames_def frameAt_def delays_def frameDelay_def Microsecond_def
      word_sless_alt numeral_2_eq_2)

section \<open>The delays between frames\<close>

text \<open>
  C2, as the code has it. The delay is computed as a \<^verbatim>\<open>time.Duration\<close>, a signed
  64-bit count of nanoseconds: the unsigned difference of the two timestamps times
  1000, with wrap-around, and \<^verbatim>\<open>time.Sleep\<close> is called only when the result is
  positive. Take a non-empty trace in which every difference \<open>d\<close> of consecutive
  timestamps, as an unsigned 64-bit number, has \<open>d * 1000 < 2 ^ 63\<close>. Then, whatever the
  bus answers and whatever the loop flag, the frame handed to the bus in the place \<open>j\<close>
  is the frame at index \<open>i = j mod n\<close> of the trace of \<open>n\<close> frames, and the calls of
  \<^verbatim>\<open>time.Sleep\<close> since the frame before are: none for the first frame of a pass; none
  for \<open>i > 0\<close> when \<open>d = 0\<close>; otherwise one call of \<open>d\<close> microseconds, that is of
  \<open>d * 1000\<close> nanoseconds. The sleep is made before the call of \<^verbatim>\<open>Publish\<close>, also when
  that call then fails. A replay that may start a pass hands at least one frame to the
  bus, and while the calls of \<^verbatim>\<open>Publish\<close> succeed every frame of every pass. For the
  timestamps 100, 150 and 400 the delays are 0, 50 and 250 microseconds.
\<close>

theorem delays_follow_timestamps:
  assumes "frames \<noteq> []"
    and "\<forall>i. 0 < i \<and> i < length frames \<longrightarrow>
           uint (Timestamp (frames ! i) - Timestamp (frames ! (i - 1))) * 1000 < 2 ^ 63"
  shows "(\<forall>j < length (attempts (fst (replayFrames fuel EFF bus frames loop))).
            attempts (fst (replayFrames fuel EFF bus frames loop)) ! j
            = (if j mod length frames = 0
                  \<or> Timestamp (frames ! (j mod length frames))
                      = Timestamp (frames ! (j mod length frames - 1))
               then []
               else [uint (Timestamp (frames ! (j mod length frames))
                           - Timestamp (frames ! (j mod length frames - 1))) * 1000],
               encodeFrame EFF (frames ! (j mod length frames))))
     \<and> (0 < fuel \<longrightarrow> attempts (fst (replayFrames fuel EFF bus frames loop)) \<noteq> [])
     \<and> ((\<forall>j < (if loop then fuel else 1) * length frames. bus j) \<and> 0 < fuel \<longrightarrow>
          length (attempts (fst (replayFrames fuel EFF bus frames loop)))
            = (if loop then fuel else 1) * length frames)"
proof (intro conjI allI impI)
  let ?E = "fst (replayFrames fuel EFF bus frames loop)"
  let ?P = "passAttempts EFF frames 0 frames"
  let ?n = "length frames"
  from assms(1) have unfold: "replayFrames fuel EFF bus frames loop = replayLoop fuel EFF bus frames loop 0"
    by (simp add: replayFrames_def)
  from assms(1) have pos: "0 < ?n" by simp
  {
    fix j assume j: "j < length (attempts ?E)"
    from replayLoop_attempts [of fuel EFF bus frames loop 0] unfold
    have pre: "prefix (attempts ?E) (concat (replicate fuel ?P))" by simp
    then obtain zs where zs: "concat (replicate fuel ?P) = attempts ?E @ zs"
      by (auto simp: prefix_def)
    with j have same: "attempts ?E ! j = concat (replicate fuel ?P) ! j"
      by (simp add: nth_append)
    from zs have "length (attempts ?E) \<le> length (concat (replicate fuel ?P))" by simp
    then have "length (attempts ?E) \<le> fuel * ?n"
      by (simp add: length_concat length_passAttempts sum_list_replicate)
    with j have jn: "j < fuel * ?n" by simp
    have p: "j div ?n < fuel"
      using jn pos by (simp add: less_mult_imp_div_less)
    from pos have k: "j mod ?n < length ?P" by (simp add: length_passAttempts)
    from nth_concat_replicate [OF p k]
    have "concat (replicate fuel ?P) ! (j div ?n * ?n + j mod ?n) = ?P ! (j mod ?n)"
      by (simp add: length_passAttempts)
    then have "concat (replicate fuel ?P) ! j = ?P ! (j mod ?n)" by simp
    also from pos have "\<dots> = (sleepCalls (frameDelay frames (j mod ?n) (frames ! (j mod ?n))),
        encodeFrame EFF (frames ! (j mod ?n)))"
      by (simp add: nth_passAttempts)
    also have "sleepCalls (frameDelay frames (j mod ?n) (frames ! (j mod ?n)))
        = (if j mod ?n = 0
              \<or> Timestamp (frames ! (j mod ?n)) = Timestamp (frames ! (j mod ?n - 1))
           then []
           else [uint (Timestamp (frames ! (j mod ?n)) - Timestamp (frames ! (j mod ?n - 1))) * 1000])"
    proof (cases "j mod ?n = 0")
      case True
      then show ?thesis by (simp add: frameDelay_def sleepCalls_def)
    next
      case False
      with pos assms(2) have "uint (Timestamp (frames ! (j mod ?n))
          - Timestamp (frames ! (j mod ?n - 1))) * 1000 < 2 ^ 63"
        by simp
      from sleepCalls_small [OF this] False show ?thesis
        by (simp add: frameDelay_def)
    qed
    finally show "attempts ?E ! j
        = (if j mod ?n = 0
              \<or> Timestamp (frames ! (j mod ?n)) = Timestamp (frames ! (j mod ?n - 1))
           then []
           else [uint (Timestamp (frames ! (j mod ?n)) - Timestamp (frames ! (j mod ?n - 1))) * 1000],
           encodeFrame EFF (frames ! (j mod ?n)))"
      using same by simp
  }
  {
    assume "0 < fuel"
    then obtain fuel' where "fuel = Suc fuel'" by (cases fuel) auto
    with replayLoop_starts [OF assms(1), of fuel' EFF bus loop 0] unfold
    show "attempts ?E \<noteq> []" by simp
  }
  {
    assume a: "(\<forall>j < (if loop then fuel else 1) * ?n. bus j) \<and> 0 < fuel"
    then obtain fuel' where fuel: "fuel = Suc fuel'" by (cases fuel) auto
    have len: "length (attempts ?E) = length (published ?E)"
      by (simp add: attempts_def length_attemptsFrom)
    show "length (attempts ?E) = (if loop then fuel else 1) * ?n"
    proof (cases loop)
      case True
      with a have "\<forall>j < fuel * ?n. bus (0 + j)" by simp
      from replayLoop_ok [OF this, of EFF] True unfold len show ?thesis
        by (simp add: length_concat sum_list_replicate)
    next
      case False
      with a have ok: "\<forall>j < ?n. bus (0 + j)" by simp
      from replayLoop_once [OF ok, of fuel' EFF] replayPass_ok [OF ok, of EFF frames 0]
        False fuel unfold len
      show ?thesis by simp
    qed
  }
qed

theorem delays_follow_timestamps_witness:
  "attempts (fst (replayFrames 1 0x80 (\<lambda>n. True) [frameAt 100, frameAt 150, frameAt 400] False))
     = [([], encodeFrame 0x80 (frameAt 100)), ([50000], encodeFrame 0x80 (frameAt 150)),
        ([250000], encodeFrame 0x80 (frameAt 400))]
   \<and> delays (fst (replayFrames 1 0x80 (\<lambda>n. True) [frameAt 100, frameAt 150, frameAt 400] False))
     = [0, 50000, 250000]
   \<and> snd (replayFrames 1 0x80 (\<lambda>n. n \<noteq> 2) [frameAt 100, frameAt 150, frameAt 400] False)
     = Returned (Some (SendFailed 2 0x5F4))
   \<and> attempts (fst (replayFrames 1 0x80 (\<lambda>n. n \<noteq> 2) [frameAt 100, frameAt 150, frameAt 400] False))
     = [([], encodeFrame 0x80 (frameAt 100)), ([50000], encodeFrame 0x80 (frameAt 150)),
        ([250000], encodeFrame 0x80 (frameAt 400))]
   \<and> attempts (fst (replayFrames 2 0x80 (\<lambda>n. True) [frameAt 100, frameAt 100] True))
     = [([], encodeFrame 0x80 (frameAt 100)), ([], encodeFrame 0x80 (frameAt 100)),
        ([], encodeFrame 0x80 (frameAt 100)), ([], encodeFrame 0x80 (frameAt 100))]"
proof -
  have ne: "[frameAt 100, frameAt 150, frameAt 400] \<noteq> []" "[frameAt 100, frameAt 100] \<noteq> []"
    by simp_all
  have b3: "\<forall>i. 0 < i \<and> i < length [frameAt 100, frameAt 150, frameAt 400] \<longrightarrow>
      uint (Timestamp ([frameAt 100, frameAt 150, frameAt 400] ! i)
            - Timestamp ([frameAt 100, frameAt 150, frameAt 400] ! (i - 1))) * 1000 < 2 ^ 63"
  proof (intro allI impI)
    fix i :: nat
    assume "0 < i \<and> i < length [frameAt 100, frameAt 150, frameAt 400]"
    then have "i = 1 \<or> i = 2" by auto
    then show "uint (Timestamp ([frameAt 100, frameAt 150, frameAt 400] ! i)
            - Timestamp ([frameAt 100, frameAt 150, frameAt 400] ! (i - 1))) * 1000 < 2 ^ 63"
      by (auto simp: frameAt_def)
  qed
  have b2: "\<forall>i. 0 < i \<and> i < length [frameAt 100, frameAt 100] \<longrightarrow>
      uint (Timestamp ([frameAt 100, frameAt 100] ! i)
            - Timestamp ([frameAt 100, frameAt 100] ! (i - 1))) * 1000 < 2 ^ 63"
  proof (intro allI impI)
    fix i :: nat
    assume "0 < i \<and> i < length [frameAt 100, frameAt 100]"
    then have "i = 1" by auto
    then show "uint (Timestamp ([frameAt 100, frameAt 100] ! i)
            - Timestamp ([frameAt 100, frameAt 100] ! (i - 1))) * 1000 < 2 ^ 63"
      by (simp add: frameAt_def)
  qed
  from delays_follow_timestamps [OF ne(1) b3, of 1 "0x80" "\<lambda>n. True" False]
    delays_follow_timestamps [OF ne(1) b3, of 1 "0x80" "\<lambda>n. n \<noteq> 2" False]
    delays_follow_timestamps [OF ne(2) b2, of 2 "0x80" "\<lambda>n. True" True]
  show ?thesis
    by (simp add: replayFrames_def frameAt_def attempts_def delays_def frameDelay_def
        Microsecond_def word_sless_alt numeral_2_eq_2)
qed

text \<open>
  Beyond that bound the claim fails. The timestamps 0 and 9223372036854776 are in order
  and differ by 9223372036854776 microseconds, but the product with 1000 is negative as
  a \<^verbatim>\<open>Duration\<close>: the second frame is sent with no sleep at all. The same happens for
  the timestamps 150 and 100, whose unsigned difference is \<open>2 ^ 64 - 50\<close>.
\<close>

theorem delay_overflow_counterexample:
  "delays (fst (replayFrames 1 0x80 (\<lambda>n. True) [frameAt 0, frameAt 9223372036854776] False)) = [0, 0]
   \<and> sleeps (fst (replayFrames 1 0x80 (\<lambda>n. True) [frameAt 0, frameAt 9223372036854776] False)) = []
   \<and> uint (Timestamp (frameAt 9223372036854776) - Timestamp (frameAt 0)) = 9223372036854776
   \<and> delays (fst (replayFrames 1 0x80 (\<lambda>n. True) [frameAt 150, frameAt 100] False)) = [0, 0]
   \<and> sleeps (fst (replayFrames 1 0x80 (\<lambda>n. True) [frameAt 150, frameAt 100] False)) = []
   \<and> uint (Timestamp (frameAt 100) - Timestamp (frameAt 150)) = 18446744073709551566"
  by (simp add: replayFrames_def frameAt_def delays_def frameDelay_def Microsecond_def
      word_sless_alt)

section \<open>The payload of a parsed row\<close>

text \<open>
  C10. For every row that \<^verbatim>\<open>parseCANFrame\<close> accepts, with \<open>n\<close> the value of its length
  column: the frame's length is \<open>n\<close>, its payload has exactly \<open>n\<close> bytes, also when \<open>n\<close>
  is more than 8; the byte at an index \<open>i\<close> below \<open>n\<close> and 8 is the one that the payload
  column \<open>6 + i\<close> of the row (D1 to D8, in order) decodes to; and the bytes from index
  8 on are zero.
\<close>

theorem payload_has_declared_length:
  assumes "parseCANFrame record = Ok frame"
  shows "\<exists>n. ParseUint (record ! 5) 10 8 = Inr n
     \<and> unat (Length frame) = unat n
     \<and> length (Data frame) = unat n
     \<and> (\<forall>i. i < unat n \<and> i < 8 \<longrightarrow>
           6 + i < length record
         \<and> DecodeString (dataStrOf (record ! (6 + i))) = ([Data frame ! i], None))
     \<and> (\<forall>i. 8 \<le> i \<and> i < unat n \<longrightarrow> Data frame ! i = 0)"
proof -
  from parseCANFrame_Ok [OF assms] obtain ts ident :: u64 and n :: u64 and data where
    len: "ParseUint (record ! 5) 10 8 = Inr n"
    and data: "parseData record (ucast n) 0 (replicate (unat (ucast n :: u8)) 0) = Ok data"
    and frame: "frame = \<lparr>Timestamp = ts, ID = ucast ident,
        Extended = (ToLower (record ! 2) = ''true''), Data = data, Length = ucast n\<rparr>"
    by blast
  note n = ParseUint_u8 [OF len]
  from parseData_Ok [OF data] n have
    l: "length data = unat n"
    and d: "\<forall>j. j < unat n \<and> j < 8 \<longrightarrow>
          6 + j < length record
        \<and> DecodeString (dataStrOf (record ! (6 + j))) = ([data ! j], None)"
    and z: "\<forall>j. j < unat n \<and> 8 \<le> j \<longrightarrow> data ! j = 0"
    by simp_all
  from len n l d z frame show ?thesis by auto
qed

theorem payload_has_declared_length_witness:
  "parseCANFrame (exampleRow ''000005F4'' ''false'' ''9'')
     = Ok \<lparr>Timestamp = 18970798, ID = 0x5F4, Extended = False,
           Data = [0x00, 0x09, 0x1C, 0x46, 0x00, 0x00, 0x00, 0x01, 0x00], Length = 9\<rparr>
   \<and> parseCANFrame (exampleRow ''000005F4'' ''false'' ''3'')
     = Ok \<lparr>Timestamp = 18970798, ID = 0x5F4, Extended = False,
           Data = [0x00, 0x09, 0x1C], Length = 3\<rparr>"
proof -
  have long: "parseCANFrame (exampleRow ''000005F4'' ''false'' ''9'')
     = Ok \<lparr>Timestamp = 18970798, ID = 0x5F4, Extended = False,
           Data = [0x00, 0x09, 0x1C, 0x46, 0x00, 0x00, 0x00, 0x01, 0x00], Length = 9\<rparr>"
    by code_simp
  have short: "parseCANFrame (exampleRow ''000005F4'' ''false'' ''3'')
     = Ok \<lparr>Timestamp = 18970798, ID = 0x5F4, Extended = False,
           Data = [0x00, 0x09, 0x1C], Length = 3\<rparr>"
    by code_simp
  from payload_has_declared_length [OF long] payload_has_declared_length [OF short] long short
  show ?thesis by simp
qed

section \<open>A declared length above 8\<close>

text \<open>
  C4 says that a row whose length column is above 8, with well-formed payload columns,
  is rejected. It is not: the loop stops at the eighth column and nothing compares the
  length with 8. The row of the format's description with the length 9 is accepted,
  with a payload of nine bytes.
\<close>

theorem long_length_counterexample:
  "parseCANFrame (exampleRow ''000005F4'' ''false'' ''9'')
     = Ok \<lparr>Timestamp = 18970798, ID = 0x5F4, Extended = False,
           Data = [0x00, 0x09, 0x1C, 0x46, 0x00, 0x00, 0x00, 0x01, 0x00], Length = 9\<rparr>
   \<and> parseCSV (Rows [header14, exampleRow ''000005F4'' ''false'' ''9''])
     = Parsed [\<lparr>Timestamp = 18970798, ID = 0x5F4, Extended = False,
           Data = [0x00, 0x09, 0x1C, 0x46, 0x00, 0x00, 0x00, 0x01, 0x00], Length = 9\<rparr>] []"
  by code_simp

text \<open>
  C4, as the code has it. A row with its fourteen columns, whose timestamp and
  identifier parse, whose length column parses to \<open>n > 8\<close> and whose eight payload
  columns each decode to one byte, is accepted: the frame has the length \<open>n\<close>, and its
  payload is the eight bytes of D1 to D8 followed by \<open>n - 8\<close> zero bytes.
\<close>

theorem long_length_is_accepted:
  assumes "14 \<le> length record"
    and "ParseUint (record ! 0) 10 64 = Inr ts"
    and "parseCANID (record ! 1) = Inr ident"
    and "ParseUint (record ! 5) 10 8 = Inr n"
    and "8 < n"
    and "map (\<lambda>j. DecodeString (dataStrOf (record ! (6 + j)))) [0..<8]
           = map (\<lambda>b. ([b], None)) payload"
  shows "parseCANFrame record
     = Ok \<lparr>Timestamp = ts, ID = ucast ident, Extended = (ToLower (record ! 2) = ''true''),
           Data = payload @ replicate (unat n - 8) 0, Length = ucast n\<rparr>"
proof -
  note n8 = ParseUint_u8 [OF assms(4)]
  from assms(5) have big: "8 < unat n" by (simp add: word_less_nat_alt)
  from assms(6) have "length (map (\<lambda>j. DecodeString (dataStrOf (record ! (6 + j)))) [0..<8])
      = length (map (\<lambda>b. ([b], None :: hex_error option)) payload)"
    by simp
  then have lp: "length payload = 8" by simp
  have cols: "DecodeString (dataStrOf (record ! (6 + j))) = ([payload ! j], None)" if "j < 8" for j
  proof -
    from that have "map (\<lambda>j. DecodeString (dataStrOf (record ! (6 + j)))) [0..<8] ! j
        = DecodeString (dataStrOf (record ! (6 + j)))"
      by simp
    moreover from that lp have "map (\<lambda>b. ([b], None :: hex_error option)) payload ! j
        = ([payload ! j], None)"
      by simp
    ultimately show ?thesis using assms(6) by simp
  qed
  have "\<forall>j. 0 \<le> j \<and> j < unat (ucast n :: u8) \<and> j < 8 \<longrightarrow>
      6 + j < length record
    \<and> (\<exists>v. DecodeString (dataStrOf (record ! (6 + j))) = ([v], None))"
    using assms(1) cols by auto
  from parseData_decodable [OF this] obtain data where
    data: "parseData record (ucast n) 0 (replicate (unat (ucast n :: u8)) 0) = Ok data"
    by blast
  from parseData_Ok [OF data] n8 have
    l: "length data = unat n"
    and d: "\<forall>j. j < unat n \<and> j < 8 \<longrightarrow>
        DecodeString (dataStrOf (record ! (6 + j))) = ([data ! j], None)"
    and z: "\<forall>j. j < unat n \<and> 8 \<le> j \<longrightarrow> data ! j = 0"
    by simp_all
  have "data = payload @ replicate (unat n - 8) 0"
  proof (rule nth_equalityI)
    from l big lp show "length data = length (payload @ replicate (unat n - 8) 0)"
      by simp
  next
    fix j assume "j < length data"
    with l have j: "j < unat n" by simp
    show "data ! j = (payload @ replicate (unat n - 8) 0) ! j"
    proof (cases "j < 8")
      case True
      with j d have "DecodeString (dataStrOf (record ! (6 + j))) = ([data ! j], None)" by simp
      with cols [OF True] have "data ! j = payload ! j" by simp
      with True lp show ?thesis by (simp add: nth_append)
    next
      case False
      with j z have "data ! j = 0" by simp
      with False j lp show ?thesis by (simp add: nth_append)
    qed
  qed
  moreover from assms(1) have "record \<noteq> []" "\<not> length record \<le> 1"
    "\<not> length record \<le> 2" "\<not> length record \<le> 5"
    by auto
  ultimately show ?thesis using data assms(2-4)
    by (simp add: parseCANFrame_def parseLength_def parsePayload_def)
qed

theorem long_length_is_accepted_witness:
  "parseCANFrame (exampleRow ''000005F4'' ''false'' ''9'')
     = Ok \<lparr>Timestamp = 18970798, ID = 0x5F4, Extended = False,
           Data = [0x00, 0x09, 0x1C, 0x46, 0x00, 0x00, 0x00, 0x01] @ replicate (9 - 8) 0,
           Length = 9\<rparr>"
proof -
  have 1: "14 \<le> length (exampleRow ''000005F4'' ''false'' ''9'')"
    by (simp add: exampleRow_def)
  have 2: "ParseUint (exampleRow ''000005F4'' ''false'' ''9'' ! 0) 10 64 = Inr 18970798"
    by code_simp
  have 3: "parseCANID (exampleRow ''000005F4'' ''false'' ''9'' ! 1) = Inr 0x5F4"
    by code_simp
  have 4: "ParseUint (exampleRow ''000005F4'' ''false'' ''9'' ! 5) 10 8 = Inr 9"
    by code_simp
  have 5: "(8 :: u64) < 9" by simp
  have 6: "map (\<lambda>j. DecodeString (dataStrOf (exampleRow ''000005F4'' ''false'' ''9'' ! (6 + j))))
       [0..<8]
     = map (\<lambda>b. ([b], None)) [0x00, 0x09, 0x1C, 0x46, 0x00, 0x00, 0x00, 0x01]"
    by code_simp
  have flag: "(ToLower (exampleRow ''000005F4'' ''false'' ''9'' ! 2) = ''true'') = False"
    by code_simp
  have len: "unat (9 :: u64) = 9" "(ucast (9 :: u64) :: u8) = 9" "(ucast (0x5F4 :: u64) :: u32) = 0x5F4"
    by simp_all
  from long_length_is_accepted [OF 1 2 3 4 5 6] flag len show ?thesis
    by simp
qed

section \<open>The width of the identifier\<close>

text \<open>
  C5 says that an identifier beyond 11 bits in a standard frame, or beyond 29 bits in an
  extended one, is a parser error. The parser has no such check: the identifier 0x800
  is accepted with the flag \<^verbatim>\<open>false\<close>, and 0x20000000 with the flag \<^verbatim>\<open>true\<close>.
\<close>

theorem identifier_width_counterexample:
  "parseCANFrame (exampleRow ''800'' ''false'' ''8'')
     = Ok \<lparr>Timestamp = 18970798, ID = 0x800, Extended = False,
           Data = [0x00, 0x09, 0x1C, 0x46, 0x00, 0x00, 0x00, 0x01], Length = 8\<rparr>
   \<and> parseCANFrame (exampleRow ''20000000'' ''true'' ''8'')
     = Ok \<lparr>Timestamp = 18970798, ID = 0x20000000, Extended = True,
           Data = [0x00, 0x09, 0x1C, 0x46, 0x00, 0x00, 0x00, 0x01], Length = 8\<rparr>
   \<and> parseCSV (Rows [header14, exampleRow ''800'' ''false'' ''8'',
                     exampleRow ''20000000'' ''true'' ''8''])
     = Parsed
         [\<lparr>Timestamp = 18970798, ID = 0x800, Extended = False,
           Data = [0x00, 0x09, 0x1C, 0x46, 0x00, 0x00, 0x00, 0x01], Length = 8\<rparr>,
          \<lparr>Timestamp = 18970798, ID = 0x20000000, Extended = True,
           Data = [0x00, 0x09, 0x1C, 0x46, 0x00, 0x00, 0x00, 0x01], Length = 8\<rparr>] []"
  by code_simp

text \<open>
  C5, as the code has it. The bound is the 32 bits given to \<^verbatim>\<open>ParseUint\<close>, whatever
  the flag. A row whose identifier column, once the prefix and the leading zeros are
  stripped, is a hexadecimal number of \<open>2 ^ 32\<close> or more is rejected with the error of
  the identifier (when its timestamp parses). And a row that parses still parses when
  its identifier column is replaced by any hexadecimal number below \<open>2 ^ 32\<close> and its
  flag column by any text: the frame gets that identifier and the flag of that text.
\<close>

theorem identifier_bound_is_32_bits:
  "(1 < length record \<and> ParseUint (record ! 0) 10 64 = Inr ts
      \<and> isDigits 16 (idStrOf (record ! 1)) \<and> 2 ^ 32 \<le> digitsValue 16 (idStrOf (record ! 1))
      \<longrightarrow> parseCANFrame record = Err (InvalidCANID ErrRange))
   \<and> (parseCANFrame record = Ok frame
      \<and> isDigits 16 (idStrOf ident) \<and> digitsValue 16 (idStrOf ident) < 2 ^ 32
      \<longrightarrow> parseCANFrame (record[1 := ident, 2 := flag])
          = Ok (frame\<lparr>ID := word_of_nat (digitsValue 16 (idStrOf ident)),
                      Extended := (ToLower flag = ''true'')\<rparr>))"
proof (intro conjI impI)
  assume a: "1 < length record \<and> ParseUint (record ! 0) 10 64 = Inr ts
      \<and> isDigits 16 (idStrOf (record ! 1)) \<and> 2 ^ 32 \<le> digitsValue 16 (idStrOf (record ! 1))"
  then have "parseCANID (record ! 1) = Inl ErrRange"
    by (simp add: parseCANID_range)
  moreover from a have "record \<noteq> []" by auto
  ultimately show "parseCANFrame record = Err (InvalidCANID ErrRange)"
    using a by (simp add: parseCANFrame_def)
next
  assume a: "parseCANFrame record = Ok frame
      \<and> isDigits 16 (idStrOf ident) \<and> digitsValue 16 (idStrOf ident) < 2 ^ 32"
  let ?r = "record[1 := ident, 2 := flag]"
  from a parseCANFrame_Ok [of "record" frame] obtain ts and i0 :: u64 and n :: u64 and data where
    long: "5 < length record"
    and ts: "ParseUint (record ! 0) 10 64 = Inr ts"
    and len: "ParseUint (record ! 5) 10 8 = Inr n"
    and data: "parseData record (ucast n) 0 (replicate (unat (ucast n :: u8)) 0) = Ok data"
    and frame: "frame = \<lparr>Timestamp = ts, ID = ucast i0,
        Extended = (ToLower (record ! 2) = ''true''), Data = data, Length = ucast n\<rparr>"
    by blast
  from a have ident: "parseCANID ident = Inr (word_of_nat (digitsValue 16 (idStrOf ident)))"
    by (simp add: parseCANID_value)
  have "length ?r = length record" and "\<forall>j. 6 \<le> j \<longrightarrow> ?r ! j = record ! j"
    by simp_all
  from parseData_cong [OF this] data
  have data': "parseData ?r (ucast n) 0 (replicate (unat (ucast n :: u8)) 0) = Ok data"
    by simp
  from a have v: "digitsValue 16 (idStrOf ident) < 2 ^ 32" by simp
  have id32: "(ucast (word_of_nat (digitsValue 16 (idStrOf ident)) :: u64) :: u32)
      = word_of_nat (digitsValue 16 (idStrOf ident))"
  proof -
    from v have "digitsValue 16 (idStrOf ident) < 2 ^ 64" by simp
    then have "take_bit 64 (digitsValue 16 (idStrOf ident)) = digitsValue 16 (idStrOf ident)"
      by (rule take_bit_nat_eq_self)
    then show ?thesis by (simp add: ucast_eq unsigned_of_nat)
  qed
  from long have idx: "?r \<noteq> []" "\<not> length ?r \<le> 1" "\<not> length ?r \<le> 2" "\<not> length ?r \<le> 5"
    "?r ! 0 = record ! 0" "?r ! 1 = ident" "?r ! 2 = flag" "?r ! 5 = record ! 5"
    by auto
  show "parseCANFrame ?r
          = Ok (frame\<lparr>ID := word_of_nat (digitsValue 16 (idStrOf ident)),
                      Extended := (ToLower flag = ''true'')\<rparr>)"
    unfolding parseCANFrame_def parseLength_def parsePayload_def
    using idx ts len ident data' frame id32 by (simp del: list_update.simps length_list_update)
qed

theorem identifier_bound_is_32_bits_witness:
  "parseCANFrame (exampleRow ''1FFFFFFFF'' ''false'' ''8'') = Err (InvalidCANID ErrRange)
   \<and> parseCANFrame ((exampleRow ''000005F4'' ''true'' ''8'')[1 := ''FFFFFFFF'', 2 := ''false''])
     = Ok \<lparr>Timestamp = 18970798, ID = 0xFFFFFFFF, Extended = False,
           Data = [0x00, 0x09, 0x1C, 0x46, 0x00, 0x00, 0x00, 0x01], Length = 8\<rparr>"
proof -
  have digits: "isDigits 16 (idStrOf ''1FFFFFFFF'')" "isDigits 16 (idStrOf ''FFFFFFFF'')"
    by (simp_all add: isDigits_def isDigit_def idStrOf_def TrimPrefix_def TrimLeft_def
        digitVal_def lower_def word_le_def)
  have val: "digitsValue 16 (idStrOf ''1FFFFFFFF'') = 8589934591"
    "digitsValue 16 (idStrOf ''FFFFFFFF'') = 4294967295"
    by (simp_all add: digitsValue_def digitsValueFrom_def digitOf_def idStrOf_def TrimPrefix_def
        TrimLeft_def digitVal_def lower_def word_le_def)
  have ts: "ParseUint (exampleRow ''1FFFFFFFF'' ''false'' ''8'' ! 0) 10 64 = Inr 18970798"
    by code_simp
  have ok: "parseCANFrame (exampleRow ''000005F4'' ''true'' ''8'')
     = Ok \<lparr>Timestamp = 18970798, ID = 0x5F4, Extended = True,
           Data = [0x00, 0x09, 0x1C, 0x46, 0x00, 0x00, 0x00, 0x01], Length = 8\<rparr>"
    by code_simp
  have flag: "(ToLower ''false'' = ''true'') = False"
    by code_simp
  have cols: "1 < length (exampleRow ''1FFFFFFFF'' ''false'' ''8'')"
    "exampleRow ''1FFFFFFFF'' ''false'' ''8'' ! 1 = ''1FFFFFFFF''"
    by (simp_all add: exampleRow_def)
  from identifier_bound_is_32_bits
      [of "exampleRow ''1FFFFFFFF'' ''false'' ''8''" 18970798 _ "''0''"]
    identifier_bound_is_32_bits
      [of "exampleRow ''000005F4'' ''true'' ''8''" _ _ "''FFFFFFFF''" "''false''"]
    digits val ts ok flag cols
  show ?thesis by simp
qed

end
